theory Spec2Isabelle
  imports Main "HOL-Library.Multiset" "HOL-Library.Signed_Division"
begin

section \<open>Machine model\<close>

text \<open>
  The program is C with MPI on an LP64 machine: \<open>int\<close> has 32 bits, \<open>long long\<close> and
  \<open>size_t\<close> have 64 bits. Values are mathematical integers; every \<open>int\<close> operation of
  the source is wrapped explicitly to 32 bits (two's complement). The \<open>long long\<close> index
  arithmetic of \<open>counting_sort\<close> is bounded by \<open>size\<close> and is not wrapped; the byte
  counts passed to \<open>safe_alloc\<close> are wrapped to 64 bits. Everything that ends a process
  early is a value of type \<open>error\<close>.

  The processes of the MPI group are modelled together: a function of the group takes the
  list of the arrays of all ranks (\<open>arrays ! r\<close> is the array of rank \<open>r\<close>, and the
  length of the list is \<open>num_proc\<close>), runs the code of every rank up to the next
  collective operation, and combines the results as the collective does.
\<close>

datatype error =
    Out_of_bounds        \<comment> \<open>a read or write outside the allocated block\<close>
  | Division_by_zero     \<comment> \<open>\<open>size / num_proc\<close> with \<open>num_proc = 0\<close>\<close>
  | Alloc_failure        \<comment> \<open>\<open>safe_alloc\<close> called \<open>exit(EXIT_FAILURE)\<close>\<close>

definition INT_MIN :: int where
  "INT_MIN = - 2147483648"

definition INT_MAX :: int where
  "INT_MAX = 2147483647"

definition LLONG_MIN :: int where
  "LLONG_MIN = - 9223372036854775808"

definition LLONG_MAX :: int where
  "LLONG_MAX = 9223372036854775807"

definition wrap_int :: "int \<Rightarrow> int" where
  \<comment> \<open>the value of a 32-bit \<open>int\<close> expression whose mathematical result is \<open>x\<close>\<close>
  "wrap_int x = signed_take_bit 31 x"

definition wrap_ll :: "int \<Rightarrow> int" where
  \<comment> \<open>the same for \<open>long long\<close>, and for a \<open>size_t\<close> converted to \<open>long long\<close>\<close>
  "wrap_ll x = signed_take_bit 63 x"

definition sizeof_int :: int where
  "sizeof_int = 4"

definition bindE :: "error + 'a \<Rightarrow> ('a \<Rightarrow> error + 'b) \<Rightarrow> error + 'b" where
  \<comment> \<open>sequencing: the first failure ends the computation\<close>
  "bindE r f = (case r of Inl e \<Rightarrow> Inl e | Inr v \<Rightarrow> f v)"

definition read_at :: "'a list \<Rightarrow> int \<Rightarrow> error + 'a" where
  \<comment> \<open>\<open>a[i]\<close> as an rvalue\<close>
  "read_at a i = (if 0 \<le> i \<and> i < int (length a) then Inr (a ! nat i) else Inl Out_of_bounds)"

definition write_at :: "'a list \<Rightarrow> int \<Rightarrow> 'a \<Rightarrow> error + 'a list" where
  \<comment> \<open>\<open>a[i] = v\<close>\<close>
  "write_at a i v =
     (if 0 \<le> i \<and> i < int (length a) then Inr (a[nat i := v]) else Inl Out_of_bounds)"

fun for_each :: "(int \<Rightarrow> 's \<Rightarrow> error + 's) \<Rightarrow> int list \<Rightarrow> 's \<Rightarrow> error + 's" where
  \<comment> \<open>the body run for the given values of the loop variable, in order\<close>
  "for_each body [] s = Inr s"
| "for_each body (i # is) s = bindE (body i s) (for_each body is)"

definition for_loop :: "int \<Rightarrow> int \<Rightarrow> (int \<Rightarrow> 's \<Rightarrow> error + 's) \<Rightarrow> 's \<Rightarrow> error + 's" where
  \<comment> \<open>\<open>for (i = lo; i < hi; i++) body\<close>, for a bound \<open>hi\<close> that the body does not change\<close>
  "for_loop lo hi body s = for_each body [lo..hi - 1] s"

fun collect :: "(error + 'a) list \<Rightarrow> error + 'a list" where
  \<comment> \<open>the results of all ranks; the group fails as soon as one rank does\<close>
  "collect [] = Inr []"
| "collect (r # rs) = bindE r (\<lambda>v. bindE (collect rs) (\<lambda>vs. Inr (v # vs)))"


section \<open>MPI collectives\<close>

definition MPI_Allreduce :: "(int \<Rightarrow> int \<Rightarrow> int) \<Rightarrow> int list \<Rightarrow> int list" where
  \<comment> \<open>one value sent by each rank, in rank order; the combined value received by each rank\<close>
  "MPI_Allreduce op sent =
     (case sent of [] \<Rightarrow> [] | v # vs \<Rightarrow> replicate (length sent) (foldl op v vs))"

definition MPI_Bcast :: "int list \<Rightarrow> int \<Rightarrow> int list list \<Rightarrow> int list list" where
  \<comment> \<open>the first \<open>size\<close> elements of the buffer of every rank become those of the root\<close>
  "MPI_Bcast root_buffer sz buffers =
     map (\<lambda>b. take (nat sz) root_buffer @ drop (nat sz) b) buffers"


section \<open>util.h, util.c\<close>

definition RANGE_MIN :: int where
  "RANGE_MIN = 0"

definition RANGE_MAX :: int where
  "RANGE_MAX = 100000"

definition safe_alloc :: "(int \<Rightarrow> bool) \<Rightarrow> int \<Rightarrow> error + unit" where
  \<comment> \<open>\<open>malloc n\<close> tells whether the C library returns a block for a request of \<open>n\<close> bytes;
      both failures end the process with \<open>EXIT_FAILURE\<close>\<close>
  "safe_alloc malloc sz =
     (if sz < 1 then Inl Alloc_failure
      else if \<not> malloc sz then Inl Alloc_failure
      else Inr ())"

definition min_max_step :: "int \<Rightarrow> int \<times> int \<Rightarrow> int \<times> int" where
  \<comment> \<open>the body of the loop of \<open>array_min_max\<close> for the element \<open>x\<close>; the pair is
      \<open>(*min, *max)\<close>\<close>
  "min_max_step x mm =
     (if x < fst mm then (x, snd mm)
      else if x > snd mm then (fst mm, x)
      else mm)"

definition array_min_max :: "int list \<Rightarrow> int \<Rightarrow> int \<Rightarrow> error + int \<times> int" where
  \<comment> \<open>\<open>array_min_max(&array[off], size, &min, &max)\<close>: the pointer argument is the block
      \<open>array\<close> with the offset \<open>off\<close>; both outputs start as the first element\<close>
  "array_min_max array off sz =
     bindE (read_at array off) (\<lambda>a0.
       for_loop 0 sz
         (\<lambda>i mm. bindE (read_at array (off + i)) (\<lambda>x. Inr (min_max_step x mm)))
         (a0, a0))"

definition random_value :: "(int \<Rightarrow> int) \<Rightarrow> int \<Rightarrow> int \<Rightarrow> int \<Rightarrow> int" where
  \<comment> \<open>\<open>rand_r(&seed) % (max + 1 - min) + min\<close>, where \<open>rand i\<close> is what the call of
      \<open>rand_r\<close> or \<open>rand\<close> returns that fills the element \<open>i\<close>\<close>
  "random_value rand mn mx i = wrap_int (rand i smod wrap_int (wrap_int (mx + 1) - mn) + mn)"

definition random_step :: "(int \<Rightarrow> int) \<Rightarrow> int \<Rightarrow> int \<Rightarrow> int \<Rightarrow> int list \<Rightarrow> error + int list" where
  "random_step rand mn mx i array = write_at array i (random_value rand mn mx i)"

definition array_init_random ::
  "(int \<Rightarrow> bool) \<Rightarrow> (int \<Rightarrow> int) \<Rightarrow> int list \<Rightarrow> int \<Rightarrow> int \<Rightarrow> int \<Rightarrow> int \<Rightarrow> error + int list" where
  \<comment> \<open>\<open>array_init_random\<close> run by the whole group: every rank allocates a local array of
      \<open>local_size\<close> elements, \<open>MPI_Allgather\<close> copies the local arrays of all ranks into
      the array of every rank, and every rank fills the elements left out from the same
      seed; the result is the array that every rank holds\<close>
  "array_init_random malloc rand array sz mn mx num_proc =
     (if num_proc = 0 then Inl Division_by_zero
      else
        let local_size = sz sdiv num_proc in
        bindE (safe_alloc malloc (wrap_ll (local_size * sizeof_int)))
          (\<lambda>_. for_loop 0 sz (random_step rand mn mx) array))"


section \<open>counting\_sort.c\<close>

definition key :: "int \<Rightarrow> int" where
  "key item = item"

definition min_max_chunk :: "int \<Rightarrow> int \<Rightarrow> int \<Rightarrow> error + int \<times> int" where
  \<comment> \<open>the offset and the length of the sub-array that \<open>find_min_max\<close> passes to
      \<open>array_min_max\<close> on a rank\<close>
  "min_max_chunk sz num_proc rank =
     (if num_proc = 0 then Inl Division_by_zero
      else
        let local_size = sz sdiv num_proc in
        if rank > 0 then Inr ((rank - 1) * local_size, local_size)
        else
          let num_leftout = wrap_int (sz - local_size * num_proc)
          in Inr ((num_proc - 1) * local_size, local_size + num_leftout))"

definition local_min_max :: "int list \<Rightarrow> int \<Rightarrow> int \<Rightarrow> int \<Rightarrow> error + int \<times> int" where
  \<comment> \<open>\<open>find_min_max\<close> on one rank up to the reduction: \<open>(local_min, local_max)\<close>; their
      initial values \<open>RANGE_MAX\<close> and \<open>RANGE_MIN\<close> are overwritten by \<open>array_min_max\<close>\<close>
  "local_min_max array sz num_proc rank =
     bindE (min_max_chunk sz num_proc rank) (\<lambda>(off, len). array_min_max array off len)"

definition find_min_max :: "int list list \<Rightarrow> int \<Rightarrow> error + (int \<times> int) list" where
  \<comment> \<open>\<open>find_min_max\<close> run by the whole group: the result holds \<open>(*min, *max)\<close> of every
      rank\<close>
  "find_min_max arrays sz =
     bindE (collect (map (\<lambda>rank. local_min_max (arrays ! rank) sz (int (length arrays))
                                    (int rank))
                         [0..<length arrays]))
       (\<lambda>locals. Inr (zip (MPI_Allreduce min (map fst locals))
                           (MPI_Allreduce max (map snd locals))))"

definition new_count :: "(int \<Rightarrow> bool) \<Rightarrow> int \<Rightarrow> error + int list" where
  \<comment> \<open>\<open>safe_alloc(count_size * sizeof(int))\<close> followed by the loop that sets the
      \<open>count_size\<close> entries to 0; the product is computed in \<open>size_t\<close> and passed as
      \<open>long long\<close>\<close>
  "new_count malloc count_size =
     bindE (safe_alloc malloc (wrap_ll (count_size * sizeof_int)))
       (\<lambda>_. Inr (replicate (nat count_size) 0))"

definition count_step :: "int list \<Rightarrow> int \<Rightarrow> int \<Rightarrow> int list \<Rightarrow> error + int list" where
  \<comment> \<open>\<open>local_count[key(array[i]) - min] += 1\<close>\<close>
  "count_step array mn i local_count =
     bindE (read_at array i) (\<lambda>x.
       let j = wrap_int (key x - mn) in
       bindE (read_at local_count j) (\<lambda>c. write_at local_count j (wrap_int (c + 1))))"

definition count_chunk :: "int \<Rightarrow> int \<Rightarrow> int \<Rightarrow> int \<times> int" where
  \<comment> \<open>the bounds \<open>[local_offset, local_offset + local_size)\<close> of the counting loop of a rank\<close>
  "count_chunk sz num_proc rank =
     (let local_size = sz sdiv num_proc;
          local_offset = rank * local_size
      in (local_offset, local_offset + local_size))"

definition leftout_chunk :: "int \<Rightarrow> int \<Rightarrow> int \<times> int" where
  \<comment> \<open>the bounds \<open>[index_leftout, size)\<close> of the second counting loop of rank 0\<close>
  "leftout_chunk sz num_proc =
     (let local_size = sz sdiv num_proc;
          index_leftout = local_size * num_proc
      in (index_leftout, sz))"

definition local_histogram ::
  "(int \<Rightarrow> bool) \<Rightarrow> int list \<Rightarrow> int \<Rightarrow> int \<Rightarrow> int \<Rightarrow> int \<times> int \<Rightarrow> error + int list" where
  \<comment> \<open>\<open>counting_sort\<close> on one rank from the reduction to the branch on the rank: the
      contents of \<open>local_count\<close> after the first counting loop\<close>
  "local_histogram malloc array sz num_proc rank bounds =
     (let count_size = wrap_int (wrap_int (snd bounds - fst bounds) + 1) in
      bindE (new_count malloc count_size)
        (for_loop (fst (count_chunk sz num_proc rank)) (snd (count_chunk sz num_proc rank))
           (count_step array (fst bounds))))"

definition add_step :: "int list \<Rightarrow> int \<Rightarrow> int list \<Rightarrow> error + int list" where
  \<comment> \<open>\<open>count[j] += local_count[j]\<close>\<close>
  "add_step local_count j cnt =
     bindE (read_at cnt j) (\<lambda>c.
       bindE (read_at local_count j) (\<lambda>l. write_at cnt j (wrap_int (c + l))))"

definition coordinator_count ::
  "(int \<Rightarrow> bool) \<Rightarrow> int list \<Rightarrow> int \<Rightarrow> int \<Rightarrow> int \<times> int \<Rightarrow> int list list \<Rightarrow> error + int list" where
  \<comment> \<open>the branch of rank 0 up to the sequential part: \<open>count\<close> is allocated and set to
      zero, the elements left out are counted into \<open>local_count\<close>, and for every rank
      \<open>i\<close> in order \<open>local_count\<close> (for \<open>i > 0\<close> overwritten by the message of rank
      \<open>i\<close>) is added to \<open>count\<close>; \<open>local_counts ! i\<close> is the histogram that rank \<open>i\<close>
      holds when it reaches the branch\<close>
  "coordinator_count malloc array sz num_proc bounds local_counts =
     (let count_size = wrap_int (wrap_int (snd bounds - fst bounds) + 1) in
      bindE (new_count malloc count_size) (\<lambda>cnt.
        bindE (for_loop (fst (leftout_chunk sz num_proc)) (snd (leftout_chunk sz num_proc))
                 (count_step array (fst bounds)) (local_counts ! 0))
          (\<lambda>local_count.
             for_loop 0 num_proc
               (\<lambda>i cnt. for_loop 0 count_size
                          (add_step (if i > 0 then local_counts ! nat i else local_count)) cnt)
               cnt)))"

definition fill_step :: "int \<Rightarrow> int \<Rightarrow> int list \<times> int \<Rightarrow> error + int list \<times> int" where
  \<comment> \<open>\<open>array[k++] = i\<close>; the state is \<open>(array, k)\<close>\<close>
  "fill_step i j s = bindE (write_at (fst s) (snd s) i) (\<lambda>array. Inr (array, snd s + 1))"

definition reconstruct :: "int list \<Rightarrow> int \<Rightarrow> int \<Rightarrow> int list \<Rightarrow> error + int list \<times> int" where
  \<comment> \<open>the final, sequential loops of rank 0; \<open>i\<close> is an \<open>int\<close>, and the inner loop does
      not write \<open>count\<close>, so its bound \<open>count[i - min]\<close> is read once\<close>
  "reconstruct array mn mx cnt =
     for_loop mn (wrap_int (mx + 1))
       (\<lambda>i s. bindE (read_at cnt (wrap_int (i - mn))) (\<lambda>c. for_loop 0 c (fill_step i) s))
       (array, 0)"

definition global_count ::
  "(int \<Rightarrow> bool) \<Rightarrow> int list list \<Rightarrow> int \<Rightarrow> error + (int \<times> int) \<times> int list" where
  \<comment> \<open>\<open>counting_sort\<close> run by the whole group up to the sequential part: the range
      \<open>(min, max)\<close> and the array \<open>count\<close> of rank 0\<close>
  "global_count malloc arrays sz =
     (if int (length arrays) = 0 then Inl Division_by_zero
      else
        bindE (find_min_max arrays sz) (\<lambda>ranges.
          bindE (collect (map (\<lambda>rank. local_histogram malloc (arrays ! rank) sz
                                         (int (length arrays)) (int rank) (ranges ! rank))
                              [0..<length arrays]))
            (\<lambda>local_counts.
               bindE (coordinator_count malloc (arrays ! 0) sz (int (length arrays)) (ranges ! 0)
                        local_counts)
                 (\<lambda>cnt. Inr (ranges ! 0, cnt)))))"

definition counting_sort :: "(int \<Rightarrow> bool) \<Rightarrow> int list list \<Rightarrow> int \<Rightarrow> error + int list list" where
  \<comment> \<open>\<open>counting_sort\<close> run by the whole group: the arrays of all ranks on return\<close>
  "counting_sort malloc arrays sz =
     bindE (global_count malloc arrays sz) (\<lambda>(bounds, cnt).
       bindE (reconstruct (arrays ! 0) (fst bounds) (snd bounds) cnt) (\<lambda>(sorted, k).
         Inr (MPI_Bcast sorted sz arrays)))"


section \<open>serial.c\<close>

definition serial_count_step :: "int list \<Rightarrow> int \<Rightarrow> int \<Rightarrow> int list \<Rightarrow> error + int list" where
  \<comment> \<open>\<open>count[array[i] - min] += 1\<close>\<close>
  "serial_count_step array mn i cnt =
     bindE (read_at array i) (\<lambda>x.
       let j = wrap_int (x - mn) in
       bindE (read_at cnt j) (\<lambda>c. write_at cnt j (wrap_int (c + 1))))"

definition serial_counting_sort :: "(int \<Rightarrow> bool) \<Rightarrow> int list \<Rightarrow> int \<Rightarrow> error + int list" where
  \<comment> \<open>\<open>counting_sort\<close> of serial.c; its loop variables are \<open>long long\<close>, so only the bound
      \<open>max + 1\<close> of the outer loop is an \<open>int\<close> expression\<close>
  "serial_counting_sort malloc array sz =
     bindE (array_min_max array 0 sz) (\<lambda>(mn, mx).
       let count_size = wrap_int (wrap_int (mx - mn) + 1) in
       bindE (new_count malloc count_size) (\<lambda>cnt.
         bindE (for_loop 0 sz (serial_count_step array mn) cnt) (\<lambda>cnt.
           bindE (for_loop mn (wrap_int (mx + 1))
                    (\<lambda>i s. bindE (read_at cnt (i - mn)) (\<lambda>c. for_loop 0 c (fill_step i) s))
                    (array, 0))
             (\<lambda>(sorted, k). Inr sorted))))"


section \<open>main.c\<close>

datatype outcome =
    Exit int        \<comment> \<open>the process ended with this exit status\<close>
  | Crash error     \<comment> \<open>the process left defined behaviour\<close>

record process =
  status :: outcome
  stdout :: string

definition EXIT_SUCCESS :: int where
  "EXIT_SUCCESS = 0"

definition EXIT_FAILURE :: int where
  "EXIT_FAILURE = 1"

definition isspace :: "char \<Rightarrow> bool" where
  "isspace c \<longleftrightarrow> (of_char c :: nat) = 32 \<or> (9 \<le> (of_char c :: nat) \<and> (of_char c :: nat) \<le> 13)"

definition isdigit :: "char \<Rightarrow> bool" where
  "isdigit c \<longleftrightarrow> 48 \<le> (of_char c :: nat) \<and> (of_char c :: nat) \<le> 57"

definition atoll :: "string \<Rightarrow> int" where
  \<comment> \<open>the C library function, that is \<open>strtoll(nptr, NULL, 10)\<close>: white space is skipped,
      an optional sign and the longest run of decimal digits are read, the rest of the
      string is ignored, no digits give 0, and the value is clamped to \<open>long long\<close>\<close>
  "atoll nptr =
     (let s = dropWhile isspace nptr;
          negative = (s \<noteq> [] \<and> hd s = CHR ''-'');
          s = (if s \<noteq> [] \<and> (hd s = CHR ''-'' \<or> hd s = CHR ''+'') then tl s else s);
          n = foldl (\<lambda>a c. 10 * a + (int (of_char c) - 48)) 0 (takeWhile isdigit s);
          v = (if negative then - n else n)
      in max LLONG_MIN (min LLONG_MAX v))"

fun digits :: "nat \<Rightarrow> string" where
  "digits n =
     (if n < 10 then [''0123456789'' ! n]
      else digits (n div 10) @ [''0123456789'' ! (n mod 10)])"

declare digits.simps [simp del]

definition printf_d :: "int \<Rightarrow> string" where
  \<comment> \<open>the conversions \<open>%d\<close> and \<open>%lld\<close> of \<open>fprintf\<close>\<close>
  "printf_d i = (if i < 0 then CHR ''-'' # digits (nat (- i)) else digits (nat i))"

definition record_line :: "int \<Rightarrow> int \<Rightarrow> string \<Rightarrow> string \<Rightarrow> string \<Rightarrow> string" where
  \<comment> \<open>\<open>fprintf(stdout, "%lld;%d;%.5f;%.5f;%.5f;", size, num_proc, time_init, time_sort,
      time_elapsed)\<close>; the three times are given as the text that \<open>%.5f\<close> prints for them\<close>
  "record_line sz num_proc time_init time_sort time_elapsed =
     printf_d sz @ '';'' @ printf_d num_proc @ '';'' @ time_init @ '';'' @ time_sort @ '';'' @
     time_elapsed @ '';''"

definition run_sort ::
  "int \<Rightarrow> int \<Rightarrow> (int \<Rightarrow> bool) \<Rightarrow> (int \<Rightarrow> int) \<Rightarrow> int \<Rightarrow> nat \<Rightarrow> error + int list list" where
  \<comment> \<open>\<open>main\<close> from the allocation of the array to the return of \<open>counting_sort\<close>, for the
      whole group; the block allocated for \<open>size * sizeof(int)\<close> bytes holds as many
      elements as the bytes received allow\<close>
  "run_sort range_min range_max malloc rand sz num_proc =
     bindE (safe_alloc malloc (wrap_ll (sz * sizeof_int))) (\<lambda>_.
       bindE (array_init_random malloc rand
                (replicate (nat (wrap_ll (sz * sizeof_int) sdiv sizeof_int)) 0)
                sz range_min range_max (int num_proc))
         (\<lambda>array. counting_sort malloc (replicate num_proc array) sz))"

definition main ::
  "int \<Rightarrow> int \<Rightarrow> (int \<Rightarrow> bool) \<Rightarrow> (int \<Rightarrow> int) \<Rightarrow> string \<Rightarrow> string \<Rightarrow> string \<Rightarrow>
   string list \<Rightarrow> nat \<Rightarrow> process list" where
  \<comment> \<open>\<open>main\<close> run by a group of \<open>num_proc\<close> processes: the exit status and the standard
      output of every rank. \<open>range_min\<close> and \<open>range_max\<close> are the macros \<open>RANGE_MIN\<close> and
      \<open>RANGE_MAX\<close> the program is compiled with, \<open>argv\<close> is the whole argument vector
      (\<open>argc\<close> is its length)\<close>
  "main range_min range_max malloc rand time_init time_sort time_elapsed argv num_proc =
     map (\<lambda>rank.
       if int (length argv) \<noteq> 2 then \<lparr>status = Exit EXIT_FAILURE, stdout = []\<rparr>
       else if range_max \<le> range_min then \<lparr>status = Exit EXIT_FAILURE, stdout = []\<rparr>
       else
         let sz = atoll (argv ! 1) in
         case run_sort range_min range_max malloc rand sz num_proc of
           Inl Alloc_failure \<Rightarrow> \<lparr>status = Exit EXIT_FAILURE, stdout = []\<rparr>
         | Inl e \<Rightarrow> \<lparr>status = Crash e, stdout = []\<rparr>
         | Inr arrays \<Rightarrow>
             \<lparr>status = Exit EXIT_SUCCESS,
              stdout = (if rank = 0
                        then record_line sz (int num_proc) time_init time_sort time_elapsed
                        else [])\<rparr>)
       [0..<num_proc]"


section \<open>Notions used in the statements\<close>

definition slice :: "'a list \<Rightarrow> int \<Rightarrow> int \<Rightarrow> 'a list" where
  \<comment> \<open>the \<open>len\<close> elements of \<open>a\<close> from index \<open>off\<close> on\<close>
  "slice a off len = take (nat len) (drop (nat off) a)"

definition min_max_part :: "nat \<Rightarrow> nat \<Rightarrow> nat \<Rightarrow> nat \<times> nat" where
  \<comment> \<open>\<open>min_max_chunk\<close> in natural numbers\<close>
  "min_max_part n w r =
     (if 0 < r then ((r - 1) * (n div w), n div w)
      else ((w - 1) * (n div w), n div w + (n - n div w * w)))"

definition hist :: "int list \<Rightarrow> int \<Rightarrow> nat \<Rightarrow> int list" where
  \<comment> \<open>the histogram of \<open>xs\<close> with \<open>n\<close> entries: entry \<open>j\<close> counts the value \<open>mn + j\<close>\<close>
  "hist xs mn n = map (\<lambda>j. int (count_list xs (mn + int j))) [0..<n]"

definition count_part :: "'a list \<Rightarrow> nat \<Rightarrow> nat \<Rightarrow> 'a list" where
  \<comment> \<open>the elements that rank \<open>r\<close> of \<open>w\<close> counts: its chunk, and on rank 0 the elements
      left out\<close>
  "count_part arr w r =
     take (length arr div w) (drop (r * (length arr div w)) arr) @
     (if r = 0 then drop (length arr div w * w) arr else [])"

definition expand :: "int list \<Rightarrow> int list \<Rightarrow> int list" where
  \<comment> \<open>every value of \<open>vs\<close> in turn, as often as it occurs in \<open>arr\<close>\<close>
  "expand arr vs = concat (map (\<lambda>v. replicate (count_list arr v) v) vs)"

definition dataset :: "int list \<Rightarrow> bool" where
  \<comment> \<open>the arrays on which the \<open>int\<close> arithmetic of \<open>counting_sort\<close> does not overflow: a
      count fits an \<open>int\<close>, \<open>max + 1\<close> fits an \<open>int\<close>, and \<open>max - min + 1\<close> fits an
      \<open>int\<close>; every array with values from \<open>RANGE_MIN\<close> to \<open>RANGE_MAX\<close> and at most
      \<open>INT_MAX\<close> elements is one\<close>
  "dataset arr \<longleftrightarrow>
     arr \<noteq> [] \<and> int (length arr) \<le> INT_MAX \<and>
     (\<forall>x\<in>set arr. INT_MIN \<le> x \<and> x < INT_MAX) \<and>
     Max (set arr) - Min (set arr) < INT_MAX"

definition count_bytes :: "int list \<Rightarrow> int" where
  \<comment> \<open>the bytes that \<open>counting_sort\<close> requests for \<open>local_count\<close> and for \<open>count\<close>\<close>
  "count_bytes arr = (Max (set arr) - Min (set arr) + 1) * 4"

definition min_max_indices :: "int \<Rightarrow> int \<Rightarrow> int \<Rightarrow> error + int list" where
  \<comment> \<open>the indices of the elements that the loop of \<open>array_min_max\<close> reads on a rank\<close>
  "min_max_indices sz num_proc rank =
     bindE (min_max_chunk sz num_proc rank) (\<lambda>(off, len). Inr [off..off + len - 1])"

definition count_indices :: "int \<Rightarrow> int \<Rightarrow> int \<Rightarrow> int list" where
  \<comment> \<open>the indices of the elements that a rank counts: those of the first counting loop and,
      on rank 0, those of the loop over the elements left out\<close>
  "count_indices sz num_proc rank =
     [fst (count_chunk sz num_proc rank)..snd (count_chunk sz num_proc rank) - 1] @
     (if rank = 0
      then [fst (leftout_chunk sz num_proc)..snd (leftout_chunk sz num_proc) - 1]
      else [])"

definition spec_partition :: "int \<Rightarrow> int \<Rightarrow> int \<Rightarrow> int list" where
  \<comment> \<open>the rule of the specification (section 4.1): with \<open>L = N / W\<close>, the ranks other than
      the coordinator take the chunks of size \<open>L\<close> in rank order, and the coordinator takes
      the last chunk and the elements left over\<close>
  "spec_partition sz num_proc rank =
     (let L = sz sdiv num_proc in
      if rank > 0 then [(rank - 1) * L..(rank - 1) * L + L - 1]
      else [(num_proc - 1) * L..sz - 1])"

definition random_array :: "(int \<Rightarrow> int) \<Rightarrow> int \<Rightarrow> int \<Rightarrow> int \<Rightarrow> int list" where
  \<comment> \<open>the array that \<open>array_init_random\<close> leaves on every rank\<close>
  "random_array rand mn mx sz = map (random_value rand mn mx) [0..sz - 1]"

definition alloc_requests :: "int \<Rightarrow> int \<Rightarrow> (int \<Rightarrow> int) \<Rightarrow> int \<Rightarrow> nat \<Rightarrow> int list" where
  \<comment> \<open>the bytes requested from \<open>safe_alloc\<close> by \<open>main\<close>, by \<open>array_init_random\<close> and by
      \<open>counting_sort\<close>, in this order\<close>
  "alloc_requests range_min range_max rand sz num_proc =
     [sz * sizeof_int,
      (sz sdiv int num_proc) * sizeof_int,
      count_bytes (random_array rand range_min range_max sz)]"

definition spec_record :: "int \<Rightarrow> int \<Rightarrow> string \<Rightarrow> string \<Rightarrow> string \<Rightarrow> string" where
  \<comment> \<open>the record as the specification gives it:
      \<open>size;worker_count;init_time;sort_time;total_time\<close>\<close>
  "spec_record sz num_proc time_init time_sort time_elapsed =
     printf_d sz @ '';'' @ printf_d num_proc @ '';'' @ time_init @ '';'' @ time_sort @ '';'' @
     time_elapsed"

definition positive_integer :: "string \<Rightarrow> bool" where
  \<comment> \<open>the argument the specification asks for: the decimal digits of a positive number\<close>
  "positive_integer s \<longleftrightarrow> s \<noteq> [] \<and> list_all isdigit s \<and> 0 < atoll s"


section \<open>Sequencing, bounds and loops\<close>

lemma bindE_Inr [simp]: "bindE (Inr v) f = f v"
  by (simp add: bindE_def)

lemma bindE_Inl [simp]: "bindE (Inl e) f = Inl e"
  by (simp add: bindE_def)

lemma wrap_int_id: "INT_MIN \<le> x \<Longrightarrow> x \<le> INT_MAX \<Longrightarrow> wrap_int x = x"
  by (simp add: wrap_int_def INT_MIN_def INT_MAX_def signed_take_bit_int_eq_self_iff)

lemma read_at_Inr: "0 \<le> i \<Longrightarrow> i < int (length a) \<Longrightarrow> read_at a i = Inr (a ! nat i)"
  by (simp add: read_at_def)

lemma write_at_Inr: "0 \<le> i \<Longrightarrow> i < int (length a) \<Longrightarrow> write_at a i v = Inr (a[nat i := v])"
  by (simp add: write_at_def)

lemma for_each_append:
  "for_each body (is @ js) s = bindE (for_each body is s) (for_each body js)"
  by (induction "is" arbitrary: s) (auto simp: bindE_def split: sum.splits)

lemma upto_map_int: "0 \<le> lo \<Longrightarrow> [lo..hi - 1] = map int [nat lo..<nat hi]"
proof (induction "nat (hi - lo)" arbitrary: hi)
  case 0
  then show ?case by simp
next
  case (Suc n)
  then have le: "lo \<le> hi - 1" and n: "n = nat (hi - 1 - lo)" by linarith+
  have "[lo..hi - 1] = [lo..hi - 1 - 1] @ [hi - 1]"
    using le by (rule upto_rec2)
  also have "[lo..hi - 1 - 1] = map int [nat lo..<nat (hi - 1)]"
    using Suc.hyps(1) [OF n] Suc.prems by simp
  also have "map int [nat lo..<nat (hi - 1)] @ [hi - 1] = map int [nat lo..<nat hi]"
  proof -
    have "nat hi = Suc (nat (hi - 1))" using le Suc.prems by linarith
    moreover have "nat lo \<le> nat (hi - 1)" using le by linarith
    moreover have "int (nat (hi - 1)) = hi - 1" using le Suc.prems by linarith
    ultimately show ?thesis by simp
  qed
  finally show ?case .
qed

lemma map_nth_upt_slice:
  "b \<le> length a \<Longrightarrow> map ((!) a) [i..<b] = take (b - i) (drop i a)"
  by (rule nth_equalityI) auto

lemma map_nth_upto:
  assumes "0 \<le> lo" "hi \<le> int (length a)"
  shows "map (\<lambda>i. a ! nat i) [lo..hi - 1] = slice a lo (hi - lo)"
proof -
  have "map (\<lambda>i. a ! nat i) [lo..hi - 1] = map ((!) a) [nat lo..<nat hi]"
    using assms by (simp add: upto_map_int comp_def)
  also have "\<dots> = take (nat hi - nat lo) (drop (nat lo) a)"
    using assms by (intro map_nth_upt_slice) linarith
  also have "nat hi - nat lo = nat (hi - lo)" using assms by linarith
  finally show ?thesis by (simp add: slice_def)
qed

lemma fold_min_max_step:
  "mn \<le> mx \<Longrightarrow> fold min_max_step xs (mn, mx) = (fold min xs mn, fold max xs mx)"
proof (induction xs arbitrary: mn mx)
  case Nil
  then show ?case by simp
next
  case (Cons x xs)
  show ?case
  proof (cases "x < mn")
    case True
    with Cons.prems have "x \<le> mx" "max x mx = mx" "min x mn = x" by simp_all
    with True Cons.IH [of x mx] show ?thesis by (simp add: min_max_step_def)
  next
    case low: False
    show ?thesis
    proof (cases "x > mx")
      case True
      with low Cons.prems have "mn \<le> x" "max x mx = x" "min x mn = mn" by simp_all
      with True low Cons.IH [of mn x] show ?thesis by (simp add: min_max_step_def)
    next
      case False
      with low have "max x mx = mx" "min x mn = mn" by simp_all
      with False low Cons.IH [of mn mx] Cons.prems show ?thesis by (simp add: min_max_step_def)
    qed
  qed
qed

lemma array_min_max_slice:
  assumes "0 \<le> off" "off < int (length a)" "off + sz \<le> int (length a)"
  shows "array_min_max a off sz =
         Inr (Min (insert (a ! nat off) (set (slice a off sz))),
              Max (insert (a ! nat off) (set (slice a off sz))))"
proof -
  let ?xs = "slice a off sz"
  have idx: "map (\<lambda>i. a ! nat (off + i)) [0..sz - 1] = ?xs"
  proof -
    have "map (\<lambda>i. a ! nat (off + i)) [0..sz - 1] = map (\<lambda>i. a ! nat i) (map (\<lambda>i. off + i) [0..sz - 1])"
      by (simp add: comp_def)
    also have "map (\<lambda>i. off + i) [0..sz - 1] = [off..off + sz - 1]"
      by (rule nth_equalityI) auto
    also have "map (\<lambda>i. a ! nat i) [off..off + sz - 1] = slice a off (off + sz - off)"
      using assms by (intro map_nth_upto) auto
    finally show ?thesis by simp
  qed
  have "for_each (\<lambda>i mm. bindE (read_at a (off + i)) (\<lambda>x. Inr (min_max_step x mm))) [0..sz - 1]
          (a ! nat off, a ! nat off) =
        Inr (fold min_max_step ?xs (a ! nat off, a ! nat off))"
  proof -
    have "for_each (\<lambda>i mm. bindE (read_at a (off + i)) (\<lambda>x. Inr (min_max_step x mm))) is s =
          Inr (fold min_max_step (map (\<lambda>i. a ! nat (off + i)) is) s)"
      if "\<forall>i\<in>set is. 0 \<le> off + i \<and> off + i < int (length a)" for "is" s
      using that by (induction "is" arbitrary: s) (simp_all add: read_at_Inr)
    from this [of "[0..sz - 1]"] assms idx show ?thesis by auto
  qed
  moreover have "fold min_max_step ?xs (a ! nat off, a ! nat off) =
                 (Min (set (a ! nat off # ?xs)), Max (set (a ! nat off # ?xs)))"
    by (simp only: fold_min_max_step [OF order_refl] Min.set_eq_fold Max.set_eq_fold)
  ultimately show ?thesis
    using assms by (simp add: array_min_max_def for_loop_def read_at_Inr)
qed

lemma slice_hd:
  "0 \<le> off \<Longrightarrow> off < int (length a) \<Longrightarrow> 0 < sz \<Longrightarrow> a ! nat off \<in> set (slice a off sz)"
  by (auto simp: slice_def in_set_conv_nth intro!: exI [of _ 0])


section \<open>The range reduction\<close>

lemma collect_map_Inr:
  "(\<And>x. x \<in> set xs \<Longrightarrow> f x = Inr (g x)) \<Longrightarrow> collect (map f xs) = Inr (map g xs)"
  by (induction xs) simp_all

lemma sdiv_nat: "int a sdiv int b = int (a div b)"
  by (simp add: signed_divide_int_def sgn_if zdiv_int)

lemma slice_nat: "slice a (int off) (int len) = take len (drop off a)"
  by (simp add: slice_def)

lemma nth_in_slice:
  "off \<le> i \<Longrightarrow> i < off + len \<Longrightarrow> i < length a \<Longrightarrow> a ! i \<in> set (take len (drop off a))"
  by (auto simp: in_set_conv_nth intro!: exI [of _ "i - off"])

lemma leftout_bounds:
  fixes n w :: nat
  assumes "0 < w"
  shows "n div w * w \<le> n" "n - n div w * w < w"
proof -
  show "n div w * w \<le> n" by simp
  have "n - n div w * w = n mod w" by (simp add: minus_div_mult_eq_mod)
  then show "n - n div w * w < w" using assms by simp
qed

lemma wrap_int_leftout:
  assumes "0 < w" "int w \<le> INT_MAX"
  shows "wrap_int (int n - int (n div w) * int w) = int (n - n div w * w)"
proof -
  have eq: "int n - int (n div w) * int w = int (n - n div w * w)"
    using leftout_bounds(1) [OF assms(1), of n] by (simp add: of_nat_diff)
  have lt: "int (n - n div w * w) < int w"
    using leftout_bounds(2) [OF assms(1), of n] by (simp only: of_nat_less_iff)
  have "wrap_int (int (n - n div w * w)) = int (n - n div w * w)"
  proof (rule wrap_int_id)
    have "INT_MIN \<le> 0" by (simp add: INT_MIN_def)
    also have "0 \<le> int (n - n div w * w)" by (rule of_nat_0_le_iff)
    finally show "INT_MIN \<le> int (n - n div w * w)" .
    show "int (n - n div w * w) \<le> INT_MAX" using lt assms(2) by linarith
  qed
  then show ?thesis by (simp only: eq)
qed

lemma last_part_length:
  fixes n w :: nat
  assumes "0 < w"
  shows "(w - 1) * (n div w) + (n div w + (n - n div w * w)) = n"
proof -
  have "(w - 1) * (n div w) + n div w = n div w * w"
    using assms by (cases w) (simp_all add: mult.commute)
  moreover have "n div w * w \<le> n" by simp
  moreover have "a + l = b \<Longrightarrow> b \<le> n \<Longrightarrow> a + (l + (n - b)) = n" for a l b :: nat
    by simp
  ultimately show ?thesis by blast
qed

lemma min_max_chunk_part:
  assumes "0 < w" "int w \<le> INT_MAX"
  shows "min_max_chunk (int n) (int w) (int r) =
         Inr (int (fst (min_max_part n w r)), int (snd (min_max_part n w r)))"
proof (cases "0 < r")
  case True
  then have "(int r - 1) * int (n div w) = int ((r - 1) * (n div w))"
    by (simp add: of_nat_diff)
  with True assms(1) show ?thesis
    by (simp add: min_max_chunk_def min_max_part_def sdiv_nat Let_def)
next
  case False
  have "(int w - 1) * int (n div w) = int ((w - 1) * (n div w))"
    using assms(1) by (simp add: of_nat_diff)
  moreover have "int (n div w) + int (n - n div w * w) = int (n div w + (n - n div w * w))"
    by (simp only: of_nat_add)
  ultimately have "Inr ((int w - 1) * int (n div w),
                        int (n div w) + wrap_int (int n - int (n div w) * int w)) =
                   (Inr (int (fst (min_max_part n w r)), int (snd (min_max_part n w r))) :: error + int \<times> int)"
    using False by (simp only: wrap_int_leftout [OF assms] min_max_part_def if_False fst_conv snd_conv)
  moreover have "min_max_chunk (int n) (int w) (int r) =
                 Inr ((int w - 1) * int (n div w),
                      int (n div w) + wrap_int (int n - int (n div w) * int w))"
    using False assms(1) by (simp add: min_max_chunk_def sdiv_nat Let_def)
  ultimately show ?thesis by (rule trans [rotated])
qed

lemma min_max_part_bounds:
  assumes "0 < w" "r < w" "0 < n"
  shows "fst (min_max_part n w r) < n"
    and "fst (min_max_part n w r) + snd (min_max_part n w r) \<le> n"
proof -
  let ?l = "n div w"
  have lw: "?l * w \<le> n" by simp
  have step: "k * ?l + ?l \<le> n" if "k < w" for k
  proof -
    have "k * ?l + ?l = Suc k * ?l" by simp
    also have "\<dots> \<le> w * ?l" using that by (intro mult_le_mono1) simp
    also have "\<dots> \<le> n" using lw by (simp add: mult.commute)
    finally show ?thesis .
  qed
  have lt: "k * ?l < n" if "k < w" for k
  proof (cases "?l = 0")
    case True
    with assms(3) show ?thesis by simp
  next
    case False
    with step [OF that] show ?thesis by simp
  qed
  show "fst (min_max_part n w r) < n"
    using assms lt [of "r - 1"] lt [of "w - 1"] by (simp add: min_max_part_def)
  show "fst (min_max_part n w r) + snd (min_max_part n w r) \<le> n"
  proof (cases "0 < r")
    case True
    with assms step [of "r - 1"] show ?thesis by (simp add: min_max_part_def)
  next
    case False
    with last_part_length [OF assms(1), of n] show ?thesis by (simp add: min_max_part_def)
  qed
qed

lemma min_max_part_cover:
  assumes "0 < w" "i < n"
  shows "\<exists>r<w. fst (min_max_part n w r) \<le> i \<and>
               i < fst (min_max_part n w r) + snd (min_max_part n w r)"
proof -
  let ?l = "n div w"
  have lw: "?l * w \<le> n" by simp
  show ?thesis
  proof (cases "(w - 1) * ?l \<le> i")
    case True
    with assms last_part_length [OF assms(1), of n] show ?thesis
      by (intro exI [of _ 0]) (simp add: min_max_part_def)
  next
    case False
    then have pos: "0 < ?l" by (cases "?l = 0") simp_all
    let ?c = "i div ?l"
    have "?c < w - 1"
    proof (rule ccontr)
      assume "\<not> ?c < w - 1"
      then have "(w - 1) * ?l \<le> ?c * ?l" by (intro mult_le_mono1) simp
      also have "\<dots> \<le> i" by simp
      finally show False using False by simp
    qed
    moreover have "?c * ?l \<le> i" by simp
    moreover have "i < ?c * ?l + ?l"
      using pos by (metis add.commute dividend_less_div_times)
    ultimately show ?thesis
      by (intro exI [of _ "Suc ?c"]) (simp add: min_max_part_def)
  qed
qed

lemma local_min_max_nat:
  assumes "0 < w" "int w \<le> INT_MAX" "r < w" "arr \<noteq> []"
  shows "local_min_max arr (int (length arr)) (int w) (int r) =
         (let p = min_max_part (length arr) w r;
              S = insert (arr ! fst p) (set (take (snd p) (drop (fst p) arr)))
          in Inr (Min S, Max S))"
proof -
  let ?p = "min_max_part (length arr) w r"
  have n: "0 < length arr" using assms(4) by simp
  have chunk: "min_max_chunk (int (length arr)) (int w) (int r) = Inr (int (fst ?p), int (snd ?p))"
    by (rule min_max_chunk_part [OF assms(1,2)])
  have "array_min_max arr (int (fst ?p)) (int (snd ?p)) =
        Inr (Min (insert (arr ! nat (int (fst ?p))) (set (slice arr (int (fst ?p)) (int (snd ?p))))),
             Max (insert (arr ! nat (int (fst ?p))) (set (slice arr (int (fst ?p)) (int (snd ?p))))))"
    using min_max_part_bounds [OF assms(1,3) n]
    by (intro array_min_max_slice) (simp_all flip: of_nat_add)
  then show ?thesis
    by (simp add: local_min_max_def chunk slice_nat Let_def)
qed

lemma foldl_min_Min: "foldl min v vs = Min (set (v # vs))" for v :: int
proof -
  have "(\<lambda>x s. min s x) = (min :: int \<Rightarrow> int \<Rightarrow> int)"
    by (intro ext) (rule min.commute)
  then show ?thesis by (simp only: Min.set_eq_fold foldl_conv_fold)
qed

lemma foldl_max_Max: "foldl max v vs = Max (set (v # vs))" for v :: int
proof -
  have "(\<lambda>x s. max s x) = (max :: int \<Rightarrow> int \<Rightarrow> int)"
    by (intro ext) (rule max.commute)
  then show ?thesis by (simp only: Max.set_eq_fold foldl_conv_fold)
qed

lemma MPI_Allreduce_min: "vs \<noteq> [] \<Longrightarrow> MPI_Allreduce min vs = replicate (length vs) (Min (set vs))"
  by (cases vs) (simp_all add: MPI_Allreduce_def foldl_min_Min del: set_simps)

lemma MPI_Allreduce_max: "vs \<noteq> [] \<Longrightarrow> MPI_Allreduce max vs = replicate (length vs) (Max (set vs))"
  by (cases vs) (simp_all add: MPI_Allreduce_def foldl_max_Max del: set_simps)

lemma Min_of_cover:
  fixes S :: "nat \<Rightarrow> int set"
  assumes "0 < w" "\<And>r. r < w \<Longrightarrow> finite (S r) \<and> S r \<noteq> {} \<and> S r \<subseteq> A" "A \<subseteq> (\<Union>r<w. S r)"
    "finite A"
  shows "Min (set (map (\<lambda>r. Min (S r)) [0..<w])) = Min A"
    and "Max (set (map (\<lambda>r. Max (S r)) [0..<w])) = Max A"
proof -
  have ne: "A \<noteq> {}" using assms(1,2) by blast
  show "Min (set (map (\<lambda>r. Min (S r)) [0..<w])) = Min A"
  proof (rule Min_eqI)
    show "finite (set (map (\<lambda>r. Min (S r)) [0..<w]))" by simp
    fix y assume "y \<in> set (map (\<lambda>r. Min (S r)) [0..<w])"
    then obtain r where r: "r < w" "y = Min (S r)" by auto
    have "Min (S r) \<in> S r" using assms(2) [OF r(1)] by (intro Min_in) simp_all
    then have "y \<in> A" using assms(2) [OF r(1)] r(2) by blast
    then show "Min A \<le> y" using assms(4) by simp
  next
    have "Min A \<in> A" using assms(4) ne by simp
    then obtain r where r: "r < w" "Min A \<in> S r" using assms(3) by auto
    have "Min (S r) \<le> Min A" using r assms(2) [OF r(1)] by simp
    moreover have "Min (S r) \<in> S r" using assms(2) [OF r(1)] by (intro Min_in) simp_all
    then have "Min (S r) \<in> A" using assms(2) [OF r(1)] by blast
    then have "Min A \<le> Min (S r)" using assms(4) by simp
    ultimately have "Min (S r) = Min A" by simp
    with r(1) show "Min A \<in> set (map (\<lambda>r. Min (S r)) [0..<w])" by force
  qed
  show "Max (set (map (\<lambda>r. Max (S r)) [0..<w])) = Max A"
  proof (rule Max_eqI)
    show "finite (set (map (\<lambda>r. Max (S r)) [0..<w]))" by simp
    fix y assume "y \<in> set (map (\<lambda>r. Max (S r)) [0..<w])"
    then obtain r where r: "r < w" "y = Max (S r)" by auto
    have "Max (S r) \<in> S r" using assms(2) [OF r(1)] by (intro Max_in) simp_all
    then have "y \<in> A" using assms(2) [OF r(1)] r(2) by blast
    then show "y \<le> Max A" using assms(4) by simp
  next
    have "Max A \<in> A" using assms(4) ne by simp
    then obtain r where r: "r < w" "Max A \<in> S r" using assms(3) by auto
    have "Max A \<le> Max (S r)" using r assms(2) [OF r(1)] by simp
    moreover have "Max (S r) \<in> S r" using assms(2) [OF r(1)] by (intro Max_in) simp_all
    then have "Max (S r) \<in> A" using assms(2) [OF r(1)] by blast
    then have "Max (S r) \<le> Max A" using assms(4) by simp
    ultimately have "Max (S r) = Max A" by simp
    with r(1) show "Max A \<in> set (map (\<lambda>r. Max (S r)) [0..<w])" by force
  qed
qed

lemma find_min_max_replicate:
  assumes "arr \<noteq> []" "0 < w" "int w \<le> INT_MAX"
  shows "find_min_max (replicate w arr) (int (length arr)) =
         Inr (replicate w (Min (set arr), Max (set arr)))"
proof -
  let ?n = "length arr"
  let ?S = "\<lambda>r. insert (arr ! fst (min_max_part ?n w r))
                  (set (take (snd (min_max_part ?n w r)) (drop (fst (min_max_part ?n w r)) arr)))"
  have n: "0 < ?n" using assms(1) by simp
  have locals: "collect (map (\<lambda>rank. local_min_max (replicate w arr ! rank) (int ?n)
                                  (int w) (int rank)) [0..<w]) =
                Inr (map (\<lambda>r. (Min (?S r), Max (?S r))) [0..<w])"
  proof (rule collect_map_Inr)
    fix r assume "r \<in> set [0..<w]"
    then have r: "r < w" by simp
    then show "local_min_max (replicate w arr ! r) (int ?n) (int w) (int r) = Inr (Min (?S r), Max (?S r))"
      using local_min_max_nat [OF assms(2,3) r assms(1)] by (simp add: Let_def)
  qed
  have sub: "finite (?S r) \<and> ?S r \<noteq> {} \<and> ?S r \<subseteq> set arr" if "r < w" for r
  proof -
    have "arr ! fst (min_max_part ?n w r) \<in> set arr"
      using min_max_part_bounds(1) [OF assms(2) that n] by simp
    moreover have "set (take (snd (min_max_part ?n w r)) (drop (fst (min_max_part ?n w r)) arr)) \<subseteq> set arr"
      by (meson set_take_subset set_drop_subset subset_trans)
    ultimately show ?thesis by simp
  qed
  have cover: "set arr \<subseteq> (\<Union>r<w. ?S r)"
  proof
    fix x assume "x \<in> set arr"
    then obtain i where i: "i < ?n" "x = arr ! i" by (auto simp: in_set_conv_nth)
    from min_max_part_cover [OF assms(2) i(1)] obtain r where
      r: "r < w" "fst (min_max_part ?n w r) \<le> i"
         "i < fst (min_max_part ?n w r) + snd (min_max_part ?n w r)" by blast
    have "x \<in> ?S r" using nth_in_slice [OF r(2,3) i(1)] i(2) by simp
    with r(1) show "x \<in> (\<Union>r<w. ?S r)" by blast
  qed
  have ne: "map (\<lambda>r. Min (?S r)) [0..<w] \<noteq> []" "map (\<lambda>r. Max (?S r)) [0..<w] \<noteq> []"
    using assms(2) by simp_all
  have "MPI_Allreduce min (map (\<lambda>r. Min (?S r)) [0..<w]) = replicate w (Min (set arr))"
    using MPI_Allreduce_min [OF ne(1)] Min_of_cover(1) [of w ?S "set arr", OF assms(2) sub cover]
    by simp
  moreover have "MPI_Allreduce max (map (\<lambda>r. Max (?S r)) [0..<w]) = replicate w (Max (set arr))"
    using MPI_Allreduce_max [OF ne(2)] Min_of_cover(2) [of w ?S "set arr", OF assms(2) sub cover]
    by simp
  ultimately show ?thesis
    by (simp add: find_min_max_def locals comp_def zip_replicate)
qed


section \<open>The histograms\<close>

lemma length_hist [simp]: "length (hist xs mn n) = n"
  by (simp add: hist_def)

lemma nth_hist [simp]: "j < n \<Longrightarrow> hist xs mn n ! j = int (count_list xs (mn + int j))"
  by (simp add: hist_def)

lemma hist_Nil: "hist [] mn n = replicate n 0"
  by (rule nth_equalityI) simp_all

lemma hist_mset: "mset xs = mset ys \<Longrightarrow> hist xs mn n = hist ys mn n"
  by (simp add: hist_def flip: count_mset)

lemma hist_le_length: "j < n \<Longrightarrow> hist xs mn n ! j \<le> int (length xs)"
  by (simp add: count_le_length)

lemma count_step_hist:
  assumes i: "0 \<le> i" "i < int (length a)"
    and x: "mn \<le> a ! nat i" "a ! nat i - mn < int n"
    and n: "int n \<le> INT_MAX"
    and len: "int (length xs) < INT_MAX"
  shows "count_step a mn i (hist xs mn n) = Inr (hist (xs @ [a ! nat i]) mn n)"
proof -
  define x where "x = a ! nat i"
  define k where "k = nat (x - mn)"
  define h where "h = hist xs mn n"
  have k: "int k = x - mn" "k < n" using x by (simp_all add: k_def x_def)
  have h: "length h = n" "\<And>j. j < n \<Longrightarrow> h ! j = int (count_list xs (mn + int j))"
    by (simp_all add: h_def)
  have idx: "wrap_int (x - mn) = int k"
    unfolding k(1) using x n by (intro wrap_int_id) (simp_all add: INT_MIN_def x_def)
  have "0 \<le> h ! k" "h ! k \<le> int (length xs)"
    using k(2) by (simp_all add: h(2) count_le_length)
  then have inc: "wrap_int (h ! k + 1) = h ! k + 1"
    using len by (intro wrap_int_id) (simp_all add: INT_MIN_def)
  have upd: "h[k := h ! k + 1] = hist (xs @ [x]) mn n"
  proof (rule nth_equalityI)
    show "length (h[k := h ! k + 1]) = length (hist (xs @ [x]) mn n)"
      by (simp add: h(1))
    fix j assume "j < length (h[k := h ! k + 1])"
    then have j: "j < n" by (simp add: h(1))
    show "h[k := h ! k + 1] ! j = hist (xs @ [x]) mn n ! j"
    proof (cases "j = k")
      case True
      then have "x = mn + int j" using k(1) by simp
      with True j show ?thesis by (simp add: h)
    next
      case False
      then have "x \<noteq> mn + int j" using k(1) by linarith
      with False j show ?thesis by (simp add: h)
    qed
  qed
  have "read_at a i = Inr x"
    using i by (simp add: read_at_Inr x_def)
  moreover have "read_at h (int k) = Inr (h ! k)"
    using k(2) by (simp add: read_at_Inr h(1))
  moreover have "write_at h (int k) (h ! k + 1) = Inr (h[k := h ! k + 1])"
    using k(2) by (simp add: write_at_Inr h(1))
  ultimately have "count_step a mn i h = Inr (h[k := h ! k + 1])"
    by (simp add: count_step_def key_def idx inc)
  then show ?thesis by (simp only: upd) (simp only: h_def x_def)
qed

lemma for_each_count:
  assumes "\<forall>i\<in>set is. 0 \<le> i \<and> i < int (length a) \<and> mn \<le> a ! nat i \<and> a ! nat i - mn < int n"
    and "int n \<le> INT_MAX"
    and "int (length xs) + int (length is) \<le> INT_MAX"
  shows "for_each (count_step a mn) is (hist xs mn n) =
         Inr (hist (xs @ map (\<lambda>i. a ! nat i) is) mn n)"
  using assms
proof (induction "is" arbitrary: xs)
  case Nil
  then show ?case by simp
next
  case (Cons i "is")
  have "count_step a mn i (hist xs mn n) = Inr (hist (xs @ [a ! nat i]) mn n)"
    using Cons.prems by (intro count_step_hist) simp_all
  moreover have "for_each (count_step a mn) is (hist (xs @ [a ! nat i]) mn n) =
                 Inr (hist ((xs @ [a ! nat i]) @ map (\<lambda>i. a ! nat i) is) mn n)"
    using Cons.prems by (intro Cons.IH) simp_all
  ultimately show ?case by simp
qed

lemma for_loop_count:
  assumes "0 \<le> lo" "lo \<le> hi" "hi \<le> int (length a)"
    and "\<forall>x\<in>set (slice a lo (hi - lo)). mn \<le> x \<and> x - mn < int n"
    and "int n \<le> INT_MAX"
    and "int (length xs) + (hi - lo) \<le> INT_MAX"
  shows "for_loop lo hi (count_step a mn) (hist xs mn n) =
         Inr (hist (xs @ slice a lo (hi - lo)) mn n)"
proof -
  have sl: "map (\<lambda>i. a ! nat i) [lo..hi - 1] = slice a lo (hi - lo)"
    using assms(1,3) by (rule map_nth_upto)
  have "\<forall>i\<in>set [lo..hi - 1]. 0 \<le> i \<and> i < int (length a) \<and>
          mn \<le> a ! nat i \<and> a ! nat i - mn < int n"
  proof
    fix i assume i: "i \<in> set [lo..hi - 1]"
    then have "a ! nat i \<in> (\<lambda>i. a ! nat i) ` set [lo..hi - 1]" by (rule imageI)
    then have "a ! nat i \<in> set (slice a lo (hi - lo))" by (simp only: sl [symmetric] set_map)
    with assms(4) have "mn \<le> a ! nat i \<and> a ! nat i - mn < int n" by simp
    moreover have "0 \<le> i \<and> i < int (length a)" using i assms(1,3) by simp
    ultimately show "0 \<le> i \<and> i < int (length a) \<and> mn \<le> a ! nat i \<and> a ! nat i - mn < int n"
      by simp
  qed
  moreover have "int (length xs) + int (length [lo..hi - 1]) \<le> INT_MAX"
    using assms(2,6) by simp
  ultimately have "for_each (count_step a mn) [lo..hi - 1] (hist xs mn n) =
                   Inr (hist (xs @ map (\<lambda>i. a ! nat i) [lo..hi - 1]) mn n)"
    using assms(5) by (intro for_each_count)
  then show ?thesis by (simp only: for_loop_def sl)
qed

lemma wrap_ll_id: "- (2 ^ 63) \<le> x \<Longrightarrow> x < 2 ^ 63 \<Longrightarrow> wrap_ll x = x"
  by (simp add: wrap_ll_def signed_take_bit_int_eq_self_iff)

lemma new_count_Inr:
  assumes "1 \<le> cs" "cs \<le> INT_MAX" "malloc (cs * 4)"
  shows "new_count malloc cs = Inr (replicate (nat cs) 0)"
proof -
  have "wrap_ll (cs * 4) = cs * 4"
    using assms(1,2) by (intro wrap_ll_id) (simp_all add: INT_MAX_def)
  with assms show ?thesis
    by (simp add: new_count_def safe_alloc_def sizeof_int_def)
qed

lemma add_step_Inr:
  assumes "k < length c" "k < length l" "INT_MIN \<le> c ! k + l ! k" "c ! k + l ! k \<le> INT_MAX"
  shows "add_step l (int k) c = Inr (c[k := c ! k + l ! k])"
  using assms by (simp add: add_step_def read_at_Inr write_at_Inr wrap_int_id)

lemma for_each_add:
  assumes "k \<le> n" "length c = n" "length l = n"
    and "\<forall>j<n. INT_MIN \<le> c ! j + l ! j \<and> c ! j + l ! j \<le> INT_MAX"
  shows "for_each (add_step l) (map int [0..<k]) c =
         Inr (map (\<lambda>j. if j < k then c ! j + l ! j else c ! j) [0..<n])"
  using assms(1)
proof (induction k)
  case 0
  have "map (\<lambda>j. c ! j) [0..<n] = c"
    unfolding assms(2) [symmetric] by (rule map_nth)
  then show ?case by simp
next
  case (Suc k)
  let ?s = "map (\<lambda>j. if j < k then c ! j + l ! j else c ! j) [0..<n]"
  have k: "k < n" using Suc.prems by simp
  have s: "for_each (add_step l) (map int [0..<k]) c = Inr ?s"
    using Suc by simp
  have "add_step l (int k) ?s = Inr (?s[k := ?s ! k + l ! k])"
    using k assms(3,4) by (intro add_step_Inr) simp_all
  moreover have "?s[k := ?s ! k + l ! k] =
                 map (\<lambda>j. if j < Suc k then c ! j + l ! j else c ! j) [0..<n]"
    using k by (intro nth_equalityI) (auto simp: nth_list_update less_Suc_eq)
  ultimately show ?case
    by (simp add: for_each_append s)
qed

lemma for_loop_add_hist:
  assumes "int (length xs) + int (length ys) \<le> INT_MAX"
  shows "for_loop 0 (int n) (add_step (hist ys mn n)) (hist xs mn n) = Inr (hist (xs @ ys) mn n)"
proof -
  have "\<forall>j<n. INT_MIN \<le> hist xs mn n ! j + hist ys mn n ! j \<and>
              hist xs mn n ! j + hist ys mn n ! j \<le> INT_MAX"
  proof (intro allI impI)
    fix j assume j: "j < n"
    have "hist xs mn n ! j \<le> int (length xs)" "hist ys mn n ! j \<le> int (length ys)"
      using j by (rule hist_le_length)+
    moreover have "0 \<le> hist xs mn n ! j" "0 \<le> hist ys mn n ! j"
      using j by simp_all
    ultimately show "INT_MIN \<le> hist xs mn n ! j + hist ys mn n ! j \<and>
                     hist xs mn n ! j + hist ys mn n ! j \<le> INT_MAX"
      using assms by (simp add: INT_MIN_def)
  qed
  then have "for_each (add_step (hist ys mn n)) (map int [0..<n]) (hist xs mn n) =
             Inr (map (\<lambda>j. if j < n then hist xs mn n ! j + hist ys mn n ! j else hist xs mn n ! j)
                      [0..<n])"
    by (intro for_each_add) simp_all
  moreover have "map (\<lambda>j. if j < n then hist xs mn n ! j + hist ys mn n ! j else hist xs mn n ! j)
                   [0..<n] = hist (xs @ ys) mn n"
    by (rule nth_equalityI) simp_all
  moreover have "[0..int n - 1] = map int [0..<n]"
    using upto_map_int [of 0 "int n"] by simp
  ultimately show ?thesis by (simp add: for_loop_def)
qed

lemma length_concat_take: "length (concat (take k xss)) \<le> length (concat xss)"
proof -
  have "concat xss = concat (take k xss) @ concat (drop k xss)"
    by (simp flip: concat_append)
  then show ?thesis by (metis le_add1 length_append)
qed

lemma for_each_gather:
  assumes "k \<le> length xss" "int (length (concat xss)) \<le> INT_MAX"
  shows "for_each (\<lambda>i cnt. for_loop 0 (int n) (add_step (map (\<lambda>xs. hist xs mn n) xss ! nat i)) cnt)
           (map int [0..<k]) (hist [] mn n) =
         Inr (hist (concat (take k xss)) mn n)"
  using assms(1)
proof (induction k)
  case 0
  then show ?case by simp
next
  case (Suc k)
  have k: "k < length xss" using Suc.prems by simp
  have cat: "concat (take (Suc k) xss) = concat (take k xss) @ xss ! k"
    using k by (simp add: take_Suc_conv_app_nth)
  have "int (length (concat (take k xss))) + int (length (xss ! k)) =
        int (length (concat (take (Suc k) xss)))"
    by (simp add: cat)
  also have "\<dots> \<le> int (length (concat xss))"
    using length_concat_take [of "Suc k" xss] by simp
  finally have "int (length (concat (take k xss))) + int (length (xss ! k)) \<le> INT_MAX"
    using assms(2) by simp
  then have "for_loop 0 (int n) (add_step (hist (xss ! k) mn n)) (hist (concat (take k xss)) mn n) =
             Inr (hist (concat (take k xss) @ xss ! k) mn n)"
    by (rule for_loop_add_hist)
  with Suc k show ?case
    by (simp add: for_each_append cat)
qed

lemma chunk_le:
  fixes n w r :: nat
  assumes "r < w"
  shows "r * (n div w) + n div w \<le> n"
proof -
  have "r * (n div w) + n div w = Suc r * (n div w)" by simp
  also have "\<dots> \<le> w * (n div w)" using assms by (intro mult_le_mono1) simp
  also have "\<dots> \<le> n" by simp
  finally show ?thesis .
qed

lemma count_chunk_nat:
  "count_chunk (int n) (int w) (int r) = (int (r * (n div w)), int (r * (n div w) + n div w))"
  by (simp add: count_chunk_def sdiv_nat Let_def)

lemma leftout_chunk_nat:
  "leftout_chunk (int n) (int w) = (int (n div w * w), int n)"
  by (simp add: leftout_chunk_def sdiv_nat Let_def)

lemma count_loops_hist:
  assumes r: "r < w"
    and len: "int (length arr) \<le> INT_MAX"
    and elems: "\<forall>x\<in>set arr. mn \<le> x \<and> x \<le> mx"
    and spread: "mn \<le> mx" "mx - mn < INT_MAX"
  shows "for_loop (fst (count_chunk (int (length arr)) (int w) (int r)))
           (snd (count_chunk (int (length arr)) (int w) (int r))) (count_step arr mn)
           (hist [] mn (nat (mx - mn + 1))) =
         Inr (hist (take (length arr div w) (drop (r * (length arr div w)) arr)) mn
                (nat (mx - mn + 1)))"
    and "for_loop (fst (leftout_chunk (int (length arr)) (int w)))
           (snd (leftout_chunk (int (length arr)) (int w))) (count_step arr mn)
           (hist (take (length arr div w) arr) mn (nat (mx - mn + 1))) =
         Inr (hist (take (length arr div w) arr @ drop (length arr div w * w) arr) mn
                (nat (mx - mn + 1)))"
proof -
  let ?n = "length arr"
  let ?l = "?n div w"
  let ?cs = "nat (mx - mn + 1)"
  let ?chunk = "take ?l (drop (r * ?l) arr)"
  let ?first = "take ?l arr"
  let ?left = "drop (?l * w) arr"
  have fits: "\<forall>x\<in>set ys. mn \<le> x \<and> x - mn < int ?cs" if "set ys \<subseteq> set arr" for ys
    using that elems spread by auto
  have le: "r * ?l + ?l \<le> ?n" using r by (rule chunk_le)
  have first: "for_loop (int (r * ?l)) (int (r * ?l + ?l)) (count_step arr mn) (hist [] mn ?cs) =
               Inr (hist ([] @ slice arr (int (r * ?l)) (int (r * ?l + ?l) - int (r * ?l))) mn ?cs)"
  proof (rule for_loop_count)
    show "int (r * ?l + ?l) \<le> int ?n" using le by (simp only: of_nat_le_iff)
    have "set (slice arr (int (r * ?l)) (int (r * ?l + ?l) - int (r * ?l))) \<subseteq> set arr"
      unfolding slice_def by (meson set_take_subset set_drop_subset subset_trans)
    then show "\<forall>x\<in>set (slice arr (int (r * ?l)) (int (r * ?l + ?l) - int (r * ?l))).
                 mn \<le> x \<and> x - mn < int ?cs"
      by (rule fits)
    have "int ?l \<le> int ?n" by (simp only: of_nat_le_iff) simp
    then have "int ?l \<le> INT_MAX" using len by (rule order_trans)
    then show "int (length ([] :: int list)) + (int (r * ?l + ?l) - int (r * ?l)) \<le> INT_MAX"
      by simp
  qed (use spread in \<open>simp_all add: INT_MAX_def\<close>)
  have sl1: "slice arr (int (r * ?l)) (int (r * ?l + ?l) - int (r * ?l)) = ?chunk"
  proof -
    have "int (r * ?l + ?l) - int (r * ?l) = int ?l" by simp
    then show ?thesis by (simp only: slice_nat)
  qed
  show "for_loop (fst (count_chunk (int ?n) (int w) (int r)))
          (snd (count_chunk (int ?n) (int w) (int r))) (count_step arr mn) (hist [] mn ?cs) =
        Inr (hist ?chunk mn ?cs)"
    by (simp only: count_chunk_nat fst_conv snd_conv first sl1 append_Nil)
  have lw: "?l * w \<le> ?n" by simp
  have sl2: "slice arr (int (?l * w)) (int ?n - int (?l * w)) = ?left"
  proof -
    have "int ?n - int (?l * w) = int (?n - ?l * w)"
      using lw by (simp only: of_nat_diff)
    then have "slice arr (int (?l * w)) (int ?n - int (?l * w)) = take (?n - ?l * w) ?left"
      by (simp only: slice_nat)
    then show ?thesis by simp
  qed
  have second: "for_loop (int (?l * w)) (int ?n) (count_step arr mn) (hist ?first mn ?cs) =
                Inr (hist (?first @ slice arr (int (?l * w)) (int ?n - int (?l * w))) mn ?cs)"
  proof (rule for_loop_count)
    show "int (?l * w) \<le> int ?n" using lw by (simp only: of_nat_le_iff)
    have "set ?left \<subseteq> set arr" by (rule set_drop_subset)
    then show "\<forall>x\<in>set (slice arr (int (?l * w)) (int ?n - int (?l * w))).
                 mn \<le> x \<and> x - mn < int ?cs"
      unfolding sl2 by (rule fits)
    have "length ?first \<le> ?l" by simp
    moreover have "?l \<le> ?l * w" using r by simp
    ultimately have "length ?first \<le> ?l * w" by (rule order_trans)
    then have "int (length ?first) \<le> int (?l * w)" by (simp only: of_nat_le_iff)
    then show "int (length ?first) + (int ?n - int (?l * w)) \<le> INT_MAX"
      using len by linarith
  qed (use spread in \<open>simp_all add: INT_MAX_def\<close>)
  show "for_loop (fst (leftout_chunk (int ?n) (int w))) (snd (leftout_chunk (int ?n) (int w)))
          (count_step arr mn) (hist ?first mn ?cs) =
        Inr (hist (?first @ ?left) mn ?cs)"
    by (simp only: leftout_chunk_nat fst_conv snd_conv second sl2)
qed

lemma count_size_wrap:
  assumes "mn \<le> mx" "mx - mn < INT_MAX"
  shows "wrap_int (wrap_int (mx - mn) + 1) = mx - mn + 1"
proof -
  have "wrap_int (mx - mn) = mx - mn"
    using assms by (intro wrap_int_id) (simp_all add: INT_MIN_def)
  moreover have "wrap_int (mx - mn + 1) = mx - mn + 1"
    using assms by (intro wrap_int_id) (simp_all add: INT_MIN_def)
  ultimately show ?thesis by simp
qed

lemma local_histogram_hist:
  assumes "r < w" "int (length arr) \<le> INT_MAX" "\<forall>x\<in>set arr. mn \<le> x \<and> x \<le> mx"
    and spread: "mn \<le> mx" "mx - mn < INT_MAX"
    and alloc: "malloc ((mx - mn + 1) * 4)"
  shows "local_histogram malloc arr (int (length arr)) (int w) (int r) (mn, mx) =
         Inr (hist (take (length arr div w) (drop (r * (length arr div w)) arr)) mn
                (nat (mx - mn + 1)))"
proof -
  have "new_count malloc (mx - mn + 1) = Inr (hist [] mn (nat (mx - mn + 1)))"
    using spread alloc by (simp add: new_count_Inr hist_Nil)
  then show ?thesis
    by (simp add: local_histogram_def count_size_wrap [OF spread]
          count_loops_hist(1) [OF assms(1-5)])
qed

lemma for_each_cong:
  "(\<And>i s. i \<in> set is \<Longrightarrow> f i s = g i s) \<Longrightarrow> for_each f is s = for_each g is s"
proof (induction "is" arbitrary: s)
  case Nil
  then show ?case by simp
next
  case (Cons i "is")
  have "f i s = g i s" using Cons.prems by simp
  moreover have "for_each f is = for_each g is"
    using Cons by (intro ext) simp
  ultimately show ?case by simp
qed

lemma concat_chunks:
  "concat (map (\<lambda>r. take l (drop (r * l) arr)) [0..<w]) = take (w * l) arr"
proof (induction w)
  case 0
  then show ?case by simp
next
  case (Suc w)
  have "take (w * l) arr @ take l (drop (w * l) arr) = take (w * l + l) arr"
    by (simp only: take_add)
  with Suc show ?case by (simp add: add.commute)
qed

lemma mset_count_parts:
  assumes "0 < w"
  shows "mset (concat (map (count_part arr w) [0..<w])) = mset arr"
proof -
  let ?l = "length arr div w"
  let ?chunk = "\<lambda>r. take ?l (drop (r * ?l) arr)"
  let ?left = "drop (?l * w) arr"
  have split: "[0..<w] = 0 # [Suc 0..<w]"
    using assms by (simp add: upt_conv_Cons)
  have tail: "map (count_part arr w) [Suc 0..<w] = map ?chunk [Suc 0..<w]"
    by (rule map_cong) (simp_all add: count_part_def)
  have "mset (concat (map (count_part arr w) [0..<w])) =
        mset (count_part arr w 0) + mset (concat (map ?chunk [Suc 0..<w]))"
    by (simp only: split list.map concat.simps mset_append tail)
  also have "\<dots> = mset (?chunk 0) + mset (concat (map ?chunk [Suc 0..<w])) + mset ?left"
    by (simp add: count_part_def)
  also have "mset (?chunk 0) + mset (concat (map ?chunk [Suc 0..<w])) =
             mset (concat (map ?chunk [0..<w]))"
    by (simp only: split list.map concat.simps mset_append)
  also have "concat (map ?chunk [0..<w]) = take (w * ?l) arr"
    by (rule concat_chunks)
  also have "mset (take (w * ?l) arr) + mset ?left = mset arr"
    by (simp add: mult.commute flip: mset_append)
  finally show ?thesis .
qed

lemma coordinator_count_hist:
  assumes w: "0 < w"
    and len: "int (length arr) \<le> INT_MAX"
    and elems: "\<forall>x\<in>set arr. mn \<le> x \<and> x \<le> mx"
    and spread: "mn \<le> mx" "mx - mn < INT_MAX"
    and alloc: "malloc ((mx - mn + 1) * 4)"
  shows "coordinator_count malloc arr (int (length arr)) (int w) (mn, mx)
           (map (\<lambda>r. hist (take (length arr div w) (drop (r * (length arr div w)) arr)) mn
                         (nat (mx - mn + 1))) [0..<w]) =
         Inr (hist arr mn (nat (mx - mn + 1)))"
proof -
  let ?n = "length arr"
  let ?l = "?n div w"
  let ?cs = "nat (mx - mn + 1)"
  let ?chunk = "\<lambda>r. take ?l (drop (r * ?l) arr)"
  let ?lcs = "map (\<lambda>r. hist (?chunk r) mn ?cs) [0..<w]"
  let ?own = "hist (take ?l arr @ drop (?l * w) arr) mn ?cs"
  let ?xss = "map (count_part arr w) [0..<w]"
  have cs: "int ?cs = mx - mn + 1" "0 < ?cs" "int ?cs \<le> INT_MAX"
    using spread by simp_all
  have new: "new_count malloc (mx - mn + 1) = Inr (hist [] mn ?cs)"
    using spread alloc by (simp add: new_count_Inr hist_Nil)
  have zero: "?lcs ! 0 = hist (take ?l arr) mn ?cs"
    using w by simp
  have own: "for_loop (fst (leftout_chunk (int ?n) (int w))) (snd (leftout_chunk (int ?n) (int w)))
               (count_step arr mn) (?lcs ! 0) = Inr ?own"
    unfolding zero using w len elems spread by (rule count_loops_hist(2))
  have msg: "(if int r > 0 then ?lcs ! nat (int r) else ?own) =
             map (\<lambda>xs. hist xs mn ?cs) ?xss ! nat (int r)" if "r < w" for r
    using that by (simp add: count_part_def)
  have "for_each (\<lambda>i cnt. for_loop 0 (int ?cs) (add_step (if i > 0 then ?lcs ! nat i else ?own)) cnt)
          (map int [0..<w]) (hist [] mn ?cs) =
        for_each (\<lambda>i cnt. for_loop 0 (int ?cs) (add_step (map (\<lambda>xs. hist xs mn ?cs) ?xss ! nat i)) cnt)
          (map int [0..<w]) (hist [] mn ?cs)"
  proof (rule for_each_cong)
    fix i s assume "i \<in> set (map int [0..<w])"
    then obtain r where r: "i = int r" "r < w" by auto
    show "for_loop 0 (int ?cs) (add_step (if i > 0 then ?lcs ! nat i else ?own)) s =
          for_loop 0 (int ?cs) (add_step (map (\<lambda>xs. hist xs mn ?cs) ?xss ! nat i)) s"
      unfolding r(1) by (simp only: msg [OF r(2)])
  qed
  also have "\<dots> = Inr (hist (concat (take w ?xss)) mn ?cs)"
  proof (rule for_each_gather)
    have "length (concat ?xss) = ?n"
      using mset_count_parts [OF w, of arr] by (rule mset_eq_length)
    then show "int (length (concat ?xss)) \<le> INT_MAX" using len by simp
  qed simp
  also have "hist (concat (take w ?xss)) mn ?cs = hist arr mn ?cs"
    using mset_count_parts [OF w, of arr] by (intro hist_mset) simp
  finally have gather:
    "for_each (\<lambda>i cnt. for_loop 0 (int ?cs) (add_step (if i > 0 then ?lcs ! nat i else ?own)) cnt)
       (map int [0..<w]) (hist [] mn ?cs) = Inr (hist arr mn ?cs)" .
  have idx: "[0..int w - 1] = map int [0..<w]"
    using upto_map_int [of 0 "int w"] by simp
  have "for_loop 0 (int w)
          (\<lambda>i cnt. for_loop 0 (mx - mn + 1) (add_step (if i > 0 then ?lcs ! nat i else ?own)) cnt)
          (hist [] mn ?cs) = Inr (hist arr mn ?cs)"
    using gather by (simp only: for_loop_def idx cs(1))
  then show ?thesis
    by (simp only: coordinator_count_def Let_def fst_conv snd_conv count_size_wrap [OF spread]
          new own bindE_Inr)
qed

lemma global_count_hist:
  assumes arr: "arr \<noteq> []" "int (length arr) \<le> INT_MAX"
    and w: "0 < w" "int w \<le> INT_MAX"
    and spread: "Max (set arr) - Min (set arr) < INT_MAX"
    and alloc: "malloc ((Max (set arr) - Min (set arr) + 1) * 4)"
  shows "global_count malloc (replicate w arr) (int (length arr)) =
         Inr ((Min (set arr), Max (set arr)),
              hist arr (Min (set arr)) (nat (Max (set arr) - Min (set arr) + 1)))"
proof -
  let ?mn = "Min (set arr)" and ?mx = "Max (set arr)"
  let ?cs = "nat (?mx - ?mn + 1)"
  let ?n = "length arr"
  let ?chunk = "\<lambda>r. take (?n div w) (drop (r * (?n div w)) arr)"
  have elems: "\<forall>x\<in>set arr. ?mn \<le> x \<and> x \<le> ?mx" by simp
  have le: "?mn \<le> ?mx" using arr(1) by simp
  have ranges: "find_min_max (replicate w arr) (int ?n) = Inr (replicate w (?mn, ?mx))"
    using arr(1) w by (rule find_min_max_replicate)
  have locals: "collect (map (\<lambda>rank. local_histogram malloc (replicate w arr ! rank) (int ?n)
                                  (int w) (int rank) (replicate w (?mn, ?mx) ! rank)) [0..<w]) =
                Inr (map (\<lambda>r. hist (?chunk r) ?mn ?cs) [0..<w])"
  proof (rule collect_map_Inr)
    fix r assume "r \<in> set [0..<w]"
    then have r: "r < w" by simp
    from local_histogram_hist [of r w arr ?mn ?mx malloc, OF r arr(2) elems le spread alloc]
    show "local_histogram malloc (replicate w arr ! r) (int ?n) (int w) (int r)
            (replicate w (?mn, ?mx) ! r) = Inr (hist (?chunk r) ?mn ?cs)"
      using r by simp
  qed
  note coord =
    coordinator_count_hist [of w arr ?mn ?mx malloc, OF w(1) arr(2) elems le spread alloc]
  show ?thesis
    using w(1) by (simp add: global_count_def ranges locals coord)
qed


section \<open>The sequential reconstruction\<close>

lemma expand_Nil [simp]: "expand arr [] = []"
  by (simp add: expand_def)

lemma expand_Cons [simp]: "expand arr (v # vs) = replicate (count_list arr v) v @ expand arr vs"
  by (simp add: expand_def)

lemma set_expand: "set (expand arr vs) \<subseteq> set vs"
  by (induction vs) auto

lemma sorted_expand: "sorted vs \<Longrightarrow> sorted (expand arr vs)"
proof (induction vs)
  case Nil
  then show ?case by simp
next
  case (Cons v vs)
  have "\<forall>x\<in>set (expand arr vs). v \<le> x"
    using Cons.prems set_expand [of arr vs] by auto
  with Cons show ?case
    by (auto simp: sorted_append)
qed

lemma count_expand:
  "distinct vs \<Longrightarrow> count (mset (expand arr vs)) x = (if x \<in> set vs then count_list arr x else 0)"
  by (induction vs) auto

lemma mset_expand:
  assumes "set arr \<subseteq> {mn..mx}"
  shows "mset (expand arr [mn..mx]) = mset arr"
proof (rule multiset_eqI)
  fix x
  show "count (mset (expand arr [mn..mx])) x = count (mset arr) x"
  proof (cases "x \<in> set [mn..mx]")
    case True
    then have "count (mset (expand arr [mn..mx])) x = count_list arr x"
      by (simp add: count_expand)
    then show ?thesis by (simp only: count_mset)
  next
    case False
    with assms have "x \<notin> set arr" by auto
    then have "count (mset arr) x = 0" by (simp add: count_mset)
    with False show ?thesis by (simp add: count_expand)
  qed
qed

lemma expand_sort:
  assumes "set arr \<subseteq> {mn..mx}"
  shows "expand arr [mn..mx] = sort arr"
  using mset_expand [OF assms] sorted_expand [OF sorted_upto]
  by (rule properties_for_sort [symmetric])

lemma fill_step_Inr:
  "fill_step v j (pre @ x # rest, int (length pre)) =
   Inr ((pre @ [v]) @ rest, int (length (pre @ [v])))"
  by (simp add: fill_step_def write_at_Inr)

lemma for_each_fill:
  "length is \<le> length rest \<Longrightarrow>
   for_each (fill_step v) is (pre @ rest, int (length pre)) =
   Inr (pre @ replicate (length is) v @ drop (length is) rest, int (length pre + length is))"
proof (induction "is" arbitrary: pre rest)
  case Nil
  then show ?case by simp
next
  case (Cons i "is")
  then obtain x rest' where rest: "rest = x # rest'" by (cases rest) auto
  with Cons.prems have "length is \<le> length rest'" by simp
  from Cons.IH [OF this, of "pre @ [v]"] show ?case
    by (simp only: rest for_each.simps fill_step_Inr bindE_Inr)
       (simp add: replicate_app_Cons_same)
qed

lemma for_loop_fill:
  assumes "c \<le> length rest"
  shows "for_loop 0 (int c) (fill_step v) (pre @ rest, int (length pre)) =
         Inr ((pre @ replicate c v) @ drop c rest, int (length (pre @ replicate c v)))"
proof -
  have "[0..int c - 1] = map int [0..<c]"
    using upto_map_int [of 0 "int c"] by simp
  with for_each_fill [of "map int [0..<c]" rest v pre] assms show ?thesis
    by (simp add: for_loop_def)
qed

lemma for_each_expand:
  assumes "\<And>v s. v \<in> set vs \<Longrightarrow> body v s = for_loop 0 (int (count_list arr v)) (fill_step v) s"
    and "length (expand arr vs) \<le> length rest"
  shows "for_each body vs (pre @ rest, int (length pre)) =
         Inr ((pre @ expand arr vs) @ drop (length (expand arr vs)) rest,
              int (length (pre @ expand arr vs)))"
  using assms
proof (induction vs arbitrary: pre rest)
  case Nil
  then show ?case by simp
next
  case (Cons v vs)
  let ?c = "count_list arr v"
  have c: "?c \<le> length rest" using Cons.prems(2) by simp
  have step: "body v (pre @ rest, int (length pre)) =
              Inr ((pre @ replicate ?c v) @ drop ?c rest, int (length (pre @ replicate ?c v)))"
    using Cons.prems(1) [of v] for_loop_fill [OF c] by simp
  have "length (expand arr vs) \<le> length (drop ?c rest)"
    using Cons.prems(2) by simp
  from Cons.IH [OF _ this, of "pre @ replicate ?c v"] Cons.prems(1)
  have "for_each body vs ((pre @ replicate ?c v) @ drop ?c rest, int (length (pre @ replicate ?c v))) =
        Inr (((pre @ replicate ?c v) @ expand arr vs) @ drop (length (expand arr vs)) (drop ?c rest),
             int (length ((pre @ replicate ?c v) @ expand arr vs)))"
    by simp
  then show ?case
    by (simp add: step add.commute)
qed

lemma read_hist:
  assumes "mn \<le> v" "v - mn < int n"
  shows "read_at (hist arr mn n) (v - mn) = Inr (int (count_list arr v))"
proof -
  have "nat (v - mn) < n" "mn + int (nat (v - mn)) = v" using assms by simp_all
  then show ?thesis using assms by (simp add: read_at_Inr)
qed

lemma reconstruct_loop:
  assumes body: "\<And>v s. mn \<le> v \<Longrightarrow> v \<le> mx \<Longrightarrow>
                   body v s = for_loop 0 (int (count_list arr v)) (fill_step v) s"
    and elems: "set arr \<subseteq> {mn..mx}"
    and len: "length a = length arr"
  shows "for_each body [mn..mx] (a, 0) = Inr (sort arr, int (length arr))"
proof -
  have ex: "expand arr [mn..mx] = sort arr"
    using elems by (rule expand_sort)
  then have "length (expand arr [mn..mx]) = length arr"
    by simp
  with for_each_expand [of "[mn..mx]" body arr a "[]"] body len ex show ?thesis
    by simp
qed

lemma reconstruct_sort:
  assumes ne: "arr \<noteq> []"
    and top: "INT_MIN \<le> Max (set arr)" "Max (set arr) < INT_MAX"
    and spread: "Max (set arr) - Min (set arr) < INT_MAX"
    and len: "length a = length arr"
  shows "reconstruct a (Min (set arr)) (Max (set arr))
           (hist arr (Min (set arr)) (nat (Max (set arr) - Min (set arr) + 1))) =
         Inr (sort arr, int (length arr))"
proof -
  let ?mn = "Min (set arr)" and ?mx = "Max (set arr)"
  let ?cnt = "hist arr ?mn (nat (?mx - ?mn + 1))"
  have bound: "wrap_int (?mx + 1) = ?mx + 1"
    using top by (intro wrap_int_id) simp_all
  have "for_each (\<lambda>i s. bindE (read_at ?cnt (wrap_int (i - ?mn))) (\<lambda>c. for_loop 0 c (fill_step i) s))
          [?mn..?mx] (a, 0) = Inr (sort arr, int (length arr))"
  proof (rule reconstruct_loop)
    show "set arr \<subseteq> {?mn..?mx}" by auto
    show "length a = length arr" by (rule len)
    fix v s assume v: "?mn \<le> v" "v \<le> ?mx"
    then have "wrap_int (v - ?mn) = v - ?mn"
      using spread by (intro wrap_int_id) (simp_all add: INT_MIN_def)
    moreover have "read_at ?cnt (v - ?mn) = Inr (int (count_list arr v))"
      using v by (intro read_hist) simp_all
    ultimately show "bindE (read_at ?cnt (wrap_int (v - ?mn))) (\<lambda>c. for_loop 0 c (fill_step v) s) =
                     for_loop 0 (int (count_list arr v)) (fill_step v) s"
      by simp
  qed
  then show ?thesis by (simp add: reconstruct_def for_loop_def bound)
qed


section \<open>The whole sort\<close>

lemma MPI_Bcast_replicate:
  "length out = length arr \<Longrightarrow>
   MPI_Bcast out (int (length arr)) (replicate w arr) = replicate w out"
  by (simp add: MPI_Bcast_def)

lemma dataset_Max:
  assumes "dataset arr"
  shows "INT_MIN \<le> Max (set arr)" "Max (set arr) < INT_MAX"
proof -
  have "Max (set arr) \<in> set arr" using assms by (intro Max_in) (simp_all add: dataset_def)
  with assms show "INT_MIN \<le> Max (set arr)" "Max (set arr) < INT_MAX"
    by (simp_all add: dataset_def)
qed

lemma counting_sort_sort:
  assumes "dataset arr" "0 < w" "int w \<le> INT_MAX" "malloc (count_bytes arr)"
  shows "counting_sort malloc (replicate w arr) (int (length arr)) = Inr (replicate w (sort arr))"
proof -
  let ?mn = "Min (set arr)" and ?mx = "Max (set arr)"
  have arr: "arr \<noteq> []" "int (length arr) \<le> INT_MAX" "?mx - ?mn < INT_MAX"
    using assms(1) by (simp_all add: dataset_def)
  have "global_count malloc (replicate w arr) (int (length arr)) =
        Inr ((?mn, ?mx), hist arr ?mn (nat (?mx - ?mn + 1)))"
    using arr(1,2) assms(2,3) arr(3) assms(4) [unfolded count_bytes_def]
    by (rule global_count_hist)
  moreover have "reconstruct (replicate w arr ! 0) ?mn ?mx (hist arr ?mn (nat (?mx - ?mn + 1))) =
                 Inr (sort arr, int (length arr))"
    using arr(1) dataset_Max [OF assms(1)] arr(3) assms(2)
    by (intro reconstruct_sort) simp_all
  ultimately show ?thesis
    by (simp add: counting_sort_def MPI_Bcast_replicate)
qed

lemma serial_count_step_eq: "serial_count_step = count_step"
  by (intro ext) (simp add: serial_count_step_def count_step_def key_def)

lemma serial_counting_sort_sort:
  assumes "dataset arr" "malloc (count_bytes arr)"
  shows "serial_counting_sort malloc arr (int (length arr)) = Inr (sort arr)"
proof -
  let ?mn = "Min (set arr)" and ?mx = "Max (set arr)"
  let ?cs = "nat (?mx - ?mn + 1)"
  have arr: "arr \<noteq> []" "int (length arr) \<le> INT_MAX" "?mx - ?mn < INT_MAX"
    using assms(1) by (simp_all add: dataset_def)
  have le: "?mn \<le> ?mx" using arr(1) by simp
  have range: "array_min_max arr 0 (int (length arr)) = Inr (?mn, ?mx)"
    using arr(1) array_min_max_slice [of 0 arr "int (length arr)"] by (simp add: slice_def)
  have cs: "wrap_int (wrap_int (?mx - ?mn) + 1) = ?mx - ?mn + 1"
  proof -
    have "wrap_int (?mx - ?mn) = ?mx - ?mn"
      using arr(3) le by (intro wrap_int_id) (simp_all add: INT_MIN_def)
    moreover have "wrap_int (?mx - ?mn + 1) = ?mx - ?mn + 1"
      using arr(3) le by (intro wrap_int_id) (simp_all add: INT_MIN_def)
    ultimately show ?thesis by simp
  qed
  have new: "new_count malloc (?mx - ?mn + 1) = Inr (hist [] ?mn ?cs)"
    using arr(3) le assms(2) by (simp add: new_count_Inr hist_Nil count_bytes_def)
  have "for_loop 0 (int (length arr)) (count_step arr ?mn) (hist [] ?mn ?cs) =
        Inr (hist ([] @ slice arr 0 (int (length arr) - 0)) ?mn ?cs)"
  proof (rule for_loop_count)
    show "\<forall>x\<in>set (slice arr 0 (int (length arr) - 0)). ?mn \<le> x \<and> x - ?mn < int ?cs"
      using le by (auto simp: slice_def)
    show "int ?cs \<le> INT_MAX" using arr(3) le by simp
    show "int (length ([] :: int list)) + (int (length arr) - 0) \<le> INT_MAX"
      using arr(2) by simp
  qed simp_all
  then have count: "for_loop 0 (int (length arr)) (serial_count_step arr ?mn) (hist [] ?mn ?cs) =
                    Inr (hist arr ?mn ?cs)"
    by (simp add: serial_count_step_eq slice_def)
  have bound: "wrap_int (?mx + 1) = ?mx + 1"
    using dataset_Max [OF assms(1)] by (intro wrap_int_id) simp_all
  have "for_each (\<lambda>i s. bindE (read_at (hist arr ?mn ?cs) (i - ?mn))
                          (\<lambda>c. for_loop 0 c (fill_step i) s))
          [?mn..?mx] (arr, 0) = Inr (sort arr, int (length arr))"
  proof (rule reconstruct_loop)
    show "set arr \<subseteq> {?mn..?mx}" by auto
    fix v s assume v: "?mn \<le> v" "v \<le> ?mx"
    then have "read_at (hist arr ?mn ?cs) (v - ?mn) = Inr (int (count_list arr v))"
      by (intro read_hist) simp_all
    then show "bindE (read_at (hist arr ?mn ?cs) (v - ?mn)) (\<lambda>c. for_loop 0 c (fill_step v) s) =
               for_loop 0 (int (count_list arr v)) (fill_step v) s"
      by simp
  qed simp
  then have fill: "for_loop ?mn (?mx + 1)
                     (\<lambda>i s. bindE (read_at (hist arr ?mn ?cs) (i - ?mn))
                                (\<lambda>c. for_loop 0 c (fill_step i) s))
                     (arr, 0) = Inr (sort arr, int (length arr))"
    by (simp add: for_loop_def)
  show ?thesis
    by (simp add: serial_counting_sort_def range cs new count bound fill)
qed

lemma sum_list_hist:
  assumes "set arr \<subseteq> {mn..mx}"
  shows "sum_list (hist arr mn (nat (mx - mn + 1))) = int (length arr)"
proof -
  have len: "int (length (expand arr vs)) = sum_list (map (\<lambda>v. int (count_list arr v)) vs)" for vs
    by (induction vs) simp_all
  have "[mn..mx] = map (\<lambda>j. mn + int j) [0..<nat (mx - mn + 1)]"
    by (rule nth_equalityI) auto
  then have "hist arr mn (nat (mx - mn + 1)) = map (\<lambda>v. int (count_list arr v)) [mn..mx]"
    by (simp add: hist_def comp_def)
  then have "sum_list (hist arr mn (nat (mx - mn + 1))) = int (length (expand arr [mn..mx]))"
    by (simp only: len)
  also have "\<dots> = int (length arr)"
    by (simp add: expand_sort [OF assms])
  finally show ?thesis .
qed


section \<open>The partition of the array\<close>

lemma bindE_return: "bindE r Inr = r"
  by (cases r) simp_all

lemma for_each_Nil: "for_each body [] = Inr"
  by (rule ext) simp

text \<open>
  The counting loops of a rank visit the indices \<open>count_indices\<close>, in this order: the loop
  over the chunk on every rank, followed on rank 0 by the loop over the elements left out.
\<close>

lemma count_loops_indices:
  "bindE (for_loop (fst (count_chunk sz num_proc rank)) (snd (count_chunk sz num_proc rank)) step s)
     (\<lambda>s. if rank = 0
          then for_loop (fst (leftout_chunk sz num_proc)) (snd (leftout_chunk sz num_proc)) step s
          else Inr s) =
   for_each step (count_indices sz num_proc rank) s"
  by (simp add: count_indices_def for_loop_def for_each_append bindE_return for_each_Nil)


section \<open>The main program\<close>

lemma safe_alloc_eq:
  "safe_alloc malloc n = (if n < 1 \<or> \<not> malloc n then Inl Alloc_failure else Inr ())"
  by (simp add: safe_alloc_def)

lemma for_each_write:
  "k \<le> length a \<Longrightarrow>
   for_each (\<lambda>i a. write_at a i (f i)) (map int [0..<k]) a =
   Inr (map (\<lambda>j. f (int j)) [0..<k] @ drop k a)"
proof (induction k)
  case 0
  then show ?case by simp
next
  case (Suc k)
  let ?s = "map (\<lambda>j. f (int j)) [0..<k] @ drop k a"
  have k: "k < length a" using Suc.prems by simp
  have "write_at ?s (int k) (f (int k)) = Inr (?s[k := f (int k)])"
    using k by (simp add: write_at_Inr)
  moreover have "?s[k := f (int k)] = map (\<lambda>j. f (int j)) [0..<Suc k] @ drop (Suc k) a"
    using k by (intro nth_equalityI) (auto simp: nth_append nth_list_update less_Suc_eq)
  ultimately show ?case
    using Suc k by (simp add: for_each_append)
qed

lemma random_loop:
  assumes "0 \<le> sz"
  shows "for_loop 0 sz (random_step rand mn mx) (replicate (nat sz) 0) =
         Inr (random_array rand mn mx sz)"
proof -
  have idx: "[0..sz - 1] = map int [0..<nat sz]"
    using upto_map_int [of 0 sz] by simp
  have "random_step rand mn mx = (\<lambda>i a. write_at a i (random_value rand mn mx i))"
    by (intro ext) (simp add: random_step_def)
  then have "for_loop 0 sz (random_step rand mn mx) (replicate (nat sz) 0) =
             Inr (map (\<lambda>j. random_value rand mn mx (int j)) [0..<nat sz] @
                  drop (nat sz) (replicate (nat sz) 0))"
    using for_each_write [of "nat sz" "replicate (nat sz) 0" "random_value rand mn mx"]
    by (simp add: for_loop_def idx)
  then show ?thesis
    by (simp add: random_array_def idx comp_def)
qed

lemma random_value_range:
  assumes "INT_MIN \<le> mn" "mx < INT_MAX" "mx - mn < INT_MAX" "mn < mx" "0 \<le> rand i"
  shows "mn \<le> random_value rand mn mx i" "random_value rand mn mx i \<le> mx"
proof -
  have a: "wrap_int (mx + 1) = mx + 1"
    using assms by (intro wrap_int_id) simp_all
  have b: "wrap_int (mx + 1 - mn) = mx + 1 - mn"
    using assms by (intro wrap_int_id) (simp_all add: INT_MIN_def)
  have m: "rand i smod (mx + 1 - mn) = rand i mod (mx + 1 - mn)"
    using assms by (simp add: signed_modulo_int_def sgn_if)
  have lo: "0 \<le> rand i mod (mx + 1 - mn)" and hi: "rand i mod (mx + 1 - mn) < mx + 1 - mn"
    using assms by simp_all
  have c: "wrap_int (rand i mod (mx + 1 - mn) + mn) = rand i mod (mx + 1 - mn) + mn"
    using assms lo hi by (intro wrap_int_id) linarith+
  have v: "random_value rand mn mx i = rand i mod (mx + 1 - mn) + mn"
    by (simp add: random_value_def a b m c)
  show "mn \<le> random_value rand mn mx i" using lo by (simp add: v)
  show "random_value rand mn mx i \<le> mx" using hi by (simp add: v)
qed

lemma dataset_random_array:
  assumes "INT_MIN \<le> mn" "mx < INT_MAX" "mx - mn < INT_MAX" "mn < mx"
    and "\<forall>i. 0 \<le> i \<longrightarrow> 0 \<le> rand i"
    and "1 \<le> sz" "sz \<le> INT_MAX"
  shows "dataset (random_array rand mn mx sz)" "length (random_array rand mn mx sz) = nat sz"
proof -
  let ?a = "random_array rand mn mx sz"
  show len: "length ?a = nat sz" by (simp add: random_array_def)
  then have ne: "?a \<noteq> []" using assms(6) by auto
  have elems: "\<forall>x\<in>set ?a. mn \<le> x \<and> x \<le> mx"
    using random_value_range [OF assms(1-4)] assms(5) by (auto simp: random_array_def)
  have "Max (set ?a) \<in> set ?a" "Min (set ?a) \<in> set ?a"
    using ne by simp_all
  with elems have "Max (set ?a) \<le> mx" "mn \<le> Min (set ?a)" by blast+
  then have "Max (set ?a) - Min (set ?a) < INT_MAX"
    using assms(3) by linarith
  moreover have "\<forall>x\<in>set ?a. INT_MIN \<le> x \<and> x < INT_MAX"
    using elems assms(1,2) by fastforce
  moreover have "int (length ?a) \<le> INT_MAX"
    using len assms(6,7) by simp
  ultimately show "dataset ?a"
    using ne by (simp add: dataset_def)
qed

lemma counting_sort_alloc_failure:
  assumes "dataset arr" "0 < w" "int w \<le> INT_MAX" "\<not> malloc (count_bytes arr)"
  shows "counting_sort malloc (replicate w arr) (int (length arr)) = Inl Alloc_failure"
proof -
  let ?mn = "Min (set arr)" and ?mx = "Max (set arr)"
  have arr: "arr \<noteq> []" "?mx - ?mn < INT_MAX"
    using assms(1) by (simp_all add: dataset_def)
  have le: "?mn \<le> ?mx" using arr(1) by simp
  have ranges: "find_min_max (replicate w arr) (int (length arr)) = Inr (replicate w (?mn, ?mx))"
    using arr(1) assms(2,3) by (rule find_min_max_replicate)
  have cs: "wrap_int (wrap_int (?mx - ?mn) + 1) = ?mx - ?mn + 1"
  proof -
    have "wrap_int (?mx - ?mn) = ?mx - ?mn"
      using arr(2) le by (intro wrap_int_id) (simp_all add: INT_MIN_def)
    moreover have "wrap_int (?mx - ?mn + 1) = ?mx - ?mn + 1"
      using arr(2) le by (intro wrap_int_id) (simp_all add: INT_MIN_def)
    ultimately show ?thesis by simp
  qed
  have "wrap_ll ((?mx - ?mn + 1) * 4) = (?mx - ?mn + 1) * 4"
    using arr(2) le by (intro wrap_ll_id) (simp_all add: INT_MAX_def)
  then have new: "new_count malloc (?mx - ?mn + 1) = Inl Alloc_failure"
    using assms(4) by (simp add: new_count_def safe_alloc_def sizeof_int_def count_bytes_def)
  have first: "local_histogram malloc arr (int (length arr)) (int w) 0 (?mn, ?mx) = Inl Alloc_failure"
    by (simp add: local_histogram_def cs new)
  have split: "[0..<w] = 0 # [Suc 0..<w]"
    using assms(2) by (simp add: upt_conv_Cons)
  have "collect (map (\<lambda>rank. local_histogram malloc (replicate w arr ! rank) (int (length arr))
                         (int w) (int rank) (replicate w (?mn, ?mx) ! rank)) [0..<w]) =
        Inl Alloc_failure"
    using assms(2) by (simp add: split first)
  then have "global_count malloc (replicate w arr) (int (length arr)) = Inl Alloc_failure"
    using assms(2) by (simp add: global_count_def ranges)
  then show ?thesis by (simp add: counting_sort_def)
qed

lemma run_sort_result:
  assumes w: "0 < num_proc" "int num_proc \<le> INT_MAX"
    and range: "INT_MIN \<le> mn" "mx < INT_MAX" "mx - mn < INT_MAX" "mn < mx"
    and rand: "\<forall>i. 0 \<le> i \<longrightarrow> 0 \<le> rand i"
    and sz: "\<bar>sz\<bar> \<le> INT_MAX"
  shows "run_sort mn mx malloc rand sz num_proc =
         (if \<exists>n\<in>set (alloc_requests mn mx rand sz num_proc). n < 1 \<or> \<not> malloc n
          then Inl Alloc_failure
          else Inr (replicate num_proc (sort (random_array rand mn mx sz))))"
proof -
  let ?a = "random_array rand mn mx sz"
  let ?l = "sz sdiv int num_proc"
  have bytes: "wrap_ll (sz * 4) = sz * 4"
    using sz by (simp add: INT_MAX_def wrap_ll_id)
  show ?thesis
  proof (cases "sz * 4 < 1 \<or> \<not> malloc (sz * 4)")
    case True
    then have "safe_alloc malloc (sz * 4) = Inl Alloc_failure"
      by (simp add: safe_alloc_eq)
    with True show ?thesis
      by (simp add: run_sort_def sizeof_int_def bytes alloc_requests_def)
  next
    case False
    then have pos: "1 \<le> sz" and first: "safe_alloc malloc (sz * 4) = Inr ()"
      by (simp_all add: safe_alloc_eq)
    have block: "nat (sz * 4 sdiv 4) = nat sz"
      using pos by (simp add: signed_divide_int_def sgn_if)
    have l: "?l = int (nat sz div num_proc)"
      using sdiv_nat [of "nat sz" num_proc] pos by simp
    have "nat sz div num_proc \<le> nat sz" by (rule div_le_dividend)
    then have "int (nat sz div num_proc) \<le> int (nat sz)" by (simp only: of_nat_le_iff)
    then have "0 \<le> ?l" "?l \<le> sz"
      using pos unfolding l by linarith+
    then have lbytes: "wrap_ll (?l * 4) = ?l * 4"
      using sz by (intro wrap_ll_id) (simp_all add: INT_MAX_def)
    have data: "dataset ?a" "length ?a = nat sz"
      using range rand pos sz by (simp_all add: dataset_random_array)
    have len: "int (length ?a) = sz" using data(2) pos by simp
    have init: "array_init_random malloc rand (replicate (nat sz) 0) sz mn mx (int num_proc) =
                bindE (safe_alloc malloc (?l * 4)) (\<lambda>_. Inr ?a)"
      using w(1) pos by (simp add: array_init_random_def sizeof_int_def lbytes random_loop)
    have run: "run_sort mn mx malloc rand sz num_proc =
               bindE (safe_alloc malloc (?l * 4))
                 (\<lambda>_. counting_sort malloc (replicate num_proc ?a) sz)"
      by (cases "safe_alloc malloc (?l * 4)") (simp_all add: run_sort_def sizeof_int_def bytes first block init)
    show ?thesis
    proof (cases "?l * 4 < 1 \<or> \<not> malloc (?l * 4)")
      case True
      then have "safe_alloc malloc (?l * 4) = Inl Alloc_failure"
        by (simp add: safe_alloc_eq)
      with True show ?thesis
        by (simp add: run alloc_requests_def sizeof_int_def)
    next
      case local: False
      then have second: "safe_alloc malloc (?l * 4) = Inr ()"
        by (simp add: safe_alloc_eq)
      have cb: "1 \<le> count_bytes ?a"
      proof -
        have "?a \<noteq> []" using data(1) by (simp add: dataset_def)
        then have "Min (set ?a) \<le> Max (set ?a)" by simp
        then show ?thesis by (simp add: count_bytes_def)
      qed
      show ?thesis
      proof (cases "malloc (count_bytes ?a)")
        case True
        from counting_sort_sort [of ?a num_proc malloc, OF data(1) w True]
        have "counting_sort malloc (replicate num_proc ?a) sz = Inr (replicate num_proc (sort ?a))"
          by (simp only: len)
        with True False local cb show ?thesis
          by (simp add: run second alloc_requests_def sizeof_int_def)
      next
        case no: False
        from counting_sort_alloc_failure [of ?a num_proc malloc, OF data(1) w no]
        have "counting_sort malloc (replicate num_proc ?a) sz = Inl Alloc_failure"
          by (simp only: len)
        with no show ?thesis
          by (simp add: run second alloc_requests_def sizeof_int_def)
      qed
    qed
  qed
qed

lemma digits_no_delimiter: "CHR '';'' \<notin> set (digits n)"
proof (induction n rule: digits.induct)
  case (1 n)
  have "k < 10 \<Longrightarrow> ''0123456789'' ! k \<noteq> CHR '';''" for k :: nat
    by (simp add: nth_Cons' )
  then have "''0123456789'' ! (n mod 10) \<noteq> CHR '';''" "n < 10 \<Longrightarrow> ''0123456789'' ! n \<noteq> CHR '';''"
    by simp_all
  with 1 show ?case
    by (subst digits.simps) auto
qed

lemma printf_d_no_delimiter: "count_list (printf_d i) CHR '';'' = 0"
  using digits_no_delimiter by (simp add: printf_d_def)

lemma count_record_line:
  assumes "CHR '';'' \<notin> set (time_init @ time_sort @ time_elapsed)"
  shows "count_list (record_line sz num_proc time_init time_sort time_elapsed) CHR '';'' = 5"
  using assms by (simp add: record_line_def printf_d_no_delimiter)

section \<open>The claims\<close>

text \<open>
  Every array that the program can hold, with values from \<open>RANGE_MIN\<close> to \<open>RANGE_MAX\<close>,
  is a dataset.
\<close>

lemma dataset_in_range:
  assumes "arr \<noteq> []" "int (length arr) \<le> INT_MAX"
    and "\<forall>x\<in>set arr. RANGE_MIN \<le> x \<and> x \<le> RANGE_MAX"
  shows "dataset arr"
proof -
  have "Max (set arr) \<in> set arr" "Min (set arr) \<in> set arr"
    using assms(1) by simp_all
  with assms(3) have "Max (set arr) \<le> RANGE_MAX" "RANGE_MIN \<le> Min (set arr)"
    by blast+
  then have "Max (set arr) - Min (set arr) < INT_MAX"
    by (simp add: RANGE_MIN_def RANGE_MAX_def INT_MAX_def)
  moreover have "\<forall>x\<in>set arr. INT_MIN \<le> x \<and> x < INT_MAX"
    using assms(3) by (fastforce simp: RANGE_MIN_def RANGE_MAX_def INT_MIN_def INT_MAX_def)
  ultimately show ?thesis
    using assms(1,2) by (simp add: dataset_def)
qed

lemma dataset_example: "dataset [5, 3, 9, 1, 4, 1, 9, 2, 6, 3]"
  by (simp add: dataset_def INT_MIN_def INT_MAX_def)

text \<open>
  C1. For every dataset (see \<open>dataset\<close>: at least one and at most \<open>INT_MAX\<close> elements,
  values and spread within \<open>int\<close>), every number of processes \<open>w \<ge> 1\<close> and an allocator
  that grants the histograms, \<open>counting_sort\<close> returns, every rank holds the same array
  \<open>out\<close>, which has the length of the input, and \<open>out[i] \<le> out[i + 1]\<close> for every valid
  index \<open>i\<close>.
\<close>

theorem counting_sort_sorted:
  assumes "dataset arr" "0 < w" "int w \<le> INT_MAX" "malloc (count_bytes arr)"
  shows "\<exists>out. counting_sort malloc (replicate w arr) (int (length arr)) = Inr (replicate w out) \<and>
               length out = length arr \<and>
               (\<forall>i. Suc i < length out \<longrightarrow> out ! i \<le> out ! Suc i)"
proof -
  have "sorted (sort arr)" by simp
  then have "\<forall>i. Suc i < length (sort arr) \<longrightarrow> sort arr ! i \<le> sort arr ! Suc i"
    by (simp only: sorted_iff_nth_Suc)
  moreover have "length (sort arr) = length arr" by simp
  ultimately show ?thesis
    using counting_sort_sort [of arr w malloc, OF assms] by blast
qed

theorem counting_sort_sorted_witness:
  "\<exists>out. counting_sort (\<lambda>n. True) (replicate 3 [5, 3, 9, 1, 4, 1, 9, 2, 6, 3]) 10 =
           Inr (replicate 3 out) \<and> length out = 10 \<and> sorted out"
  using counting_sort_sorted [of "[5, 3, 9, 1, 4, 1, 9, 2, 6, 3]" 3 "\<lambda>n. True"] dataset_example
  by (simp add: INT_MAX_def sorted_iff_nth_Suc eval_nat_numeral)

text \<open>
  C2. Under the same conditions, also when the number of processes does not divide the
  length, the entries of the global histogram \<open>count\<close> of rank 0 add up to the length of
  the input, and the output has the same elements as the input, each as often as the input
  has it.
\<close>

theorem counting_sort_conserves:
  assumes "dataset arr" "0 < w" "int w \<le> INT_MAX" "malloc (count_bytes arr)"
  shows "\<exists>bounds cnt out.
           global_count malloc (replicate w arr) (int (length arr)) = Inr (bounds, cnt) \<and>
           sum_list cnt = int (length arr) \<and>
           counting_sort malloc (replicate w arr) (int (length arr)) = Inr (replicate w out) \<and>
           mset out = mset arr"
proof -
  let ?mn = "Min (set arr)" and ?mx = "Max (set arr)"
  have arr: "arr \<noteq> []" "int (length arr) \<le> INT_MAX" "?mx - ?mn < INT_MAX"
    using assms(1) by (simp_all add: dataset_def)
  have "global_count malloc (replicate w arr) (int (length arr)) =
        Inr ((?mn, ?mx), hist arr ?mn (nat (?mx - ?mn + 1)))"
    using arr(1,2) assms(2,3) arr(3) assms(4) [unfolded count_bytes_def]
    by (rule global_count_hist)
  moreover have "sum_list (hist arr ?mn (nat (?mx - ?mn + 1))) = int (length arr)"
    by (rule sum_list_hist) auto
  moreover have "mset (sort arr) = mset arr" by simp
  ultimately show ?thesis
    using counting_sort_sort [of arr w malloc, OF assms] by blast
qed

theorem counting_sort_conserves_witness:
  "\<exists>bounds cnt out.
     global_count (\<lambda>n. True) (replicate 3 [5, 3, 9, 1, 4, 1, 9, 2, 6, 3]) 10 = Inr (bounds, cnt) \<and>
     sum_list cnt = 10 \<and>
     counting_sort (\<lambda>n. True) (replicate 3 [5, 3, 9, 1, 4, 1, 9, 2, 6, 3]) 10 =
       Inr (replicate 3 out) \<and>
     mset out = mset [5, 3, 9, 1, 4, 1, 9, 2, 6, 3]"
  using counting_sort_conserves [of "[5, 3, 9, 1, 4, 1, 9, 2, 6, 3]" 3 "\<lambda>n. True"] dataset_example
  by (simp add: INT_MAX_def)

text \<open>
  C3. For every non-empty array replicated on \<open>w \<ge> 1\<close> processes, whatever \<open>w\<close> and
  therefore whatever the partition, \<open>find_min_max\<close> returns on every rank the least and
  the greatest element of the whole array.
\<close>

theorem find_min_max_correct:
  assumes "arr \<noteq> []" "0 < w" "int w \<le> INT_MAX"
  shows "find_min_max (replicate w arr) (int (length arr)) =
         Inr (replicate w (Min (set arr), Max (set arr)))"
  using assms by (rule find_min_max_replicate)

theorem find_min_max_correct_witness:
  "find_min_max (replicate 3 [5, 3, 9, 1, 4, 1, 9, 2, 6, 3]) 10 = Inr [(1, 9), (1, 9), (1, 9)]"
  using find_min_max_correct [of "[5, 3, 9, 1, 4, 1, 9, 2, 6, 3]" 3]
  by (simp add: INT_MAX_def numeral_3_eq_3)

text \<open>
  C4, as the code has it. With \<open>L = n div w\<close>: in the range reduction rank \<open>r > 0\<close> scans
  chunk \<open>r - 1\<close>, the \<open>L\<close> elements from index \<open>(r - 1) * L\<close>, and rank 0 scans the last
  chunk and the elements left out, the indices from \<open>(w - 1) * L\<close> to \<open>n\<close>. In the
  histogram building every rank \<open>r\<close>, rank 0 too, counts chunk \<open>r\<close>, the \<open>L\<close> elements
  from index \<open>r * L\<close>, so that rank 0 counts the first chunk, and rank 0 counts in addition
  the elements left out. In both phases the elements left out are the indices from
  \<open>L * w\<close> to \<open>n\<close>, behind the chunks.
\<close>

theorem partition_by_phase:
  assumes "0 < w" "int w \<le> INT_MAX" "r < w"
  shows "min_max_indices (int n) (int w) (int r) =
           Inr (map int (if 0 < r then [(r - 1) * (n div w)..<(r - 1) * (n div w) + n div w]
                         else [(w - 1) * (n div w)..<n])) \<and>
         count_indices (int n) (int w) (int r) =
           map int ([r * (n div w)..<r * (n div w) + n div w] @
                    (if r = 0 then [n div w * w..<n] else []))"
proof
  let ?p = "min_max_part n w r"
  have "[int (fst ?p)..int (fst ?p) + int (snd ?p) - 1] = map int [fst ?p..<fst ?p + snd ?p]"
    using upto_map_int [of "int (fst ?p)" "int (fst ?p) + int (snd ?p)"]
    by (simp add: nat_add_distrib)
  moreover have "(if 0 < r then [(r - 1) * (n div w)..<(r - 1) * (n div w) + n div w]
                  else [(w - 1) * (n div w)..<n]) = [fst ?p..<fst ?p + snd ?p]"
    using last_part_length [OF assms(1), of n] by (simp add: min_max_part_def)
  ultimately show "min_max_indices (int n) (int w) (int r) =
           Inr (map int (if 0 < r then [(r - 1) * (n div w)..<(r - 1) * (n div w) + n div w]
                         else [(w - 1) * (n div w)..<n]))"
    by (simp only: min_max_indices_def min_max_chunk_part [OF assms(1,2)] bindE_Inr prod.case)
next
  have a: "[int (r * (n div w))..int (r * (n div w) + n div w) - 1] =
           map int [r * (n div w)..<r * (n div w) + n div w]"
    using upto_map_int [of "int (r * (n div w))" "int (r * (n div w) + n div w)"]
    by (simp only: nat_int of_nat_0_le_iff)
  have b: "[int (n div w * w)..int n - 1] = map int [n div w * w..<n]"
    using upto_map_int [of "int (n div w * w)" "int n"]
    by (simp only: nat_int of_nat_0_le_iff)
  have "count_indices (int n) (int w) (int r) =
        map int [r * (n div w)..<r * (n div w) + n div w] @
        (if int r = 0 then map int [n div w * w..<n] else [])"
    by (simp only: count_indices_def count_chunk_nat leftout_chunk_nat fst_conv snd_conv a b)
  then show "count_indices (int n) (int w) (int r) =
           map int ([r * (n div w)..<r * (n div w) + n div w] @
                    (if r = 0 then [n div w * w..<n] else []))"
    by (cases "r = 0") simp_all
qed

theorem partition_by_phase_witness:
  "min_max_indices 10 3 0 = Inr [6, 7, 8, 9] \<and> min_max_indices 10 3 1 = Inr [0, 1, 2] \<and>
   count_indices 10 3 0 = [0, 1, 2, 9] \<and> count_indices 10 3 1 = [3, 4, 5]"
  using partition_by_phase [of 3 0 10] partition_by_phase [of 3 1 10]
  by (simp add: INT_MAX_def upt_rec)

text \<open>
  C4, as stated, fails in the histogram building: for 10 elements and 3 processes the rule
  gives rank 0 the last chunk and the element left out, the indices 6 to 9, but rank 0
  counts the first chunk and the element left out, the indices 0, 1, 2 and 9.
\<close>

theorem coordinator_counts_first_chunk:
  "spec_partition 10 3 0 = [6, 7, 8, 9] \<and> count_indices 10 3 0 = [0, 1, 2, 9] \<and>
   count_indices 10 3 0 \<noteq> spec_partition 10 3 0"
  by code_simp

text \<open>
  C5. The scenario of the specification: on two processes the array
  \<open>[5,3,9,1,4,1,9,2,6,3]\<close> is sorted to \<open>[1,1,2,3,3,4,5,6,9,9]\<close> on both ranks, the range
  reduction gives \<open>min = 1\<close> and \<open>max = 9\<close> on both ranks, and the global histogram is
  \<open>[2,1,2,1,1,1,0,0,2]\<close>.
\<close>

theorem scenario_two_workers:
  "counting_sort (\<lambda>n. True) (replicate 2 [5, 3, 9, 1, 4, 1, 9, 2, 6, 3]) 10 =
     Inr (replicate 2 [1, 1, 2, 3, 3, 4, 5, 6, 9, 9]) \<and>
   find_min_max (replicate 2 [5, 3, 9, 1, 4, 1, 9, 2, 6, 3]) 10 = Inr (replicate 2 (1, 9)) \<and>
   global_count (\<lambda>n. True) (replicate 2 [5, 3, 9, 1, 4, 1, 9, 2, 6, 3]) 10 =
     Inr ((1, 9), [2, 1, 2, 1, 1, 1, 0, 0, 2])"
  by code_simp

text \<open>
  C6. A dataset that is already in non-decreasing order is returned unchanged on every
  rank, for every number of processes.
\<close>

theorem counting_sort_idempotent:
  assumes "dataset arr" "0 < w" "int w \<le> INT_MAX" "malloc (count_bytes arr)" "sorted arr"
  shows "counting_sort malloc (replicate w arr) (int (length arr)) = Inr (replicate w arr)"
  using counting_sort_sort [of arr w malloc, OF assms(1-4)] assms(5) by (simp add: sorted_sort_id)

theorem counting_sort_idempotent_witness:
  "counting_sort (\<lambda>n. True) (replicate 3 [1, 1, 2, 3, 3, 4, 5, 6, 9, 9]) 10 =
   Inr (replicate 3 [1, 1, 2, 3, 3, 4, 5, 6, 9, 9])"
proof -
  have "dataset [1, 1, 2, 3, 3, 4, 5, 6, 9, 9]"
    by (simp add: dataset_def INT_MIN_def INT_MAX_def)
  with counting_sort_idempotent [of "[1, 1, 2, 3, 3, 4, 5, 6, 9, 9]" 3 "\<lambda>n. True"] show ?thesis
    by (simp add: INT_MAX_def)
qed

text \<open>
  C7, as the code has it. On a run that ends with \<open>EXIT_SUCCESS\<close>, rank 0 writes to the
  standard output exactly the five fields size, number of processes, initialisation time,
  sorting time and total time, each followed by a semicolon, so that the record ends with a
  delimiter and holds five of them; every other rank writes nothing.
\<close>

theorem main_stdout:
  assumes "rank < num_proc"
    and "status (main range_min range_max malloc rand time_init time_sort time_elapsed argv
                   num_proc ! rank) = Exit EXIT_SUCCESS"
  shows "stdout (main range_min range_max malloc rand time_init time_sort time_elapsed argv
                   num_proc ! rank) =
         (if rank = 0
          then printf_d (atoll (argv ! 1)) @ '';'' @ printf_d (int num_proc) @ '';'' @
               time_init @ '';'' @ time_sort @ '';'' @ time_elapsed @ '';''
          else []) \<and>
         (rank = 0 \<and> CHR '';'' \<notin> set (time_init @ time_sort @ time_elapsed) \<longrightarrow>
          count_list (stdout (main range_min range_max malloc rand time_init time_sort
                                time_elapsed argv num_proc ! rank)) CHR '';'' = 5)"
proof -
  let ?p = "main range_min range_max malloc rand time_init time_sort time_elapsed argv
              num_proc ! rank"
  have out: "stdout ?p =
             (if rank = 0
              then record_line (atoll (argv ! 1)) (int num_proc) time_init time_sort time_elapsed
              else [])"
    using assms
    by (simp add: main_def EXIT_SUCCESS_def EXIT_FAILURE_def Let_def
             split: if_splits sum.splits error.splits)
  then have "stdout ?p =
         (if rank = 0
          then printf_d (atoll (argv ! 1)) @ '';'' @ printf_d (int num_proc) @ '';'' @
               time_init @ '';'' @ time_sort @ '';'' @ time_elapsed @ '';''
          else [])"
    by (simp add: record_line_def)
  moreover have "count_list (stdout ?p) CHR '';'' = 5"
    if "rank = 0" "CHR '';'' \<notin> set (time_init @ time_sort @ time_elapsed)"
    using that out count_record_line [of time_init time_sort time_elapsed] by simp
  ultimately show ?thesis by blast
qed

theorem main_stdout_witness:
  "stdout (main RANGE_MIN RANGE_MAX (\<lambda>n. True) (\<lambda>i. 7 * i + 3) ''0.00012'' ''0.00034''
             ''0.00046'' [''bin/parallel.out'', ''10''] 2 ! 0) =
     ''10;2;0.00012;0.00034;0.00046;'' \<and>
   stdout (main RANGE_MIN RANGE_MAX (\<lambda>n. True) (\<lambda>i. 7 * i + 3) ''0.00012'' ''0.00034''
             ''0.00046'' [''bin/parallel.out'', ''10''] 2 ! 1) = []"
proof -
  let ?run = "main RANGE_MIN RANGE_MAX (\<lambda>n. True) (\<lambda>i. 7 * i + 3) ''0.00012'' ''0.00034''
                ''0.00046'' [''bin/parallel.out'', ''10''] 2"
  have s0: "status (?run ! 0) = Exit EXIT_SUCCESS"
    by code_simp
  have s1: "status (?run ! 1) = Exit EXIT_SUCCESS"
    by code_simp
  have ten: "atoll ''10'' = 10"
    by (simp add: atoll_def isspace_def isdigit_def LLONG_MAX_def LLONG_MIN_def)
  have "stdout (?run ! 0) = ''10;2;0.00012;0.00034;0.00046;''"
    using main_stdout [of 0 2, OF _ s0] by (simp add: ten printf_d_def digits.simps)
  moreover have "stdout (?run ! 1) = []"
    using main_stdout [of 1 2, OF _ s1] by simp
  ultimately show ?thesis by (rule conjI)
qed

text \<open>
  C7, as stated, fails: the record that rank 0 writes is not the five fields separated by
  four semicolons, it has a fifth semicolon after the total time.
\<close>

theorem record_ends_with_delimiter:
  "stdout (main RANGE_MIN RANGE_MAX (\<lambda>n. True) (\<lambda>i. 7 * i + 3) ''0.00012'' ''0.00034''
             ''0.00046'' [''bin/parallel.out'', ''10''] 2 ! 0) =
     ''10;2;0.00012;0.00034;0.00046;'' \<and>
   spec_record 10 2 ''0.00012'' ''0.00034'' ''0.00046'' = ''10;2;0.00012;0.00034;0.00046'' \<and>
   stdout (main RANGE_MIN RANGE_MAX (\<lambda>n. True) (\<lambda>i. 7 * i + 3) ''0.00012'' ''0.00034''
             ''0.00046'' [''bin/parallel.out'', ''10''] 2 ! 0) \<noteq>
     spec_record 10 2 ''0.00012'' ''0.00034'' ''0.00046''"
  by code_simp

text \<open>
  C8, as the code has it. For macros \<open>RANGE_MIN\<close> and \<open>RANGE_MAX\<close> within \<open>int\<close>, a random
  source that returns no negative number and an argument that \<open>atoll\<close> reads as a number
  of absolute value at most \<open>INT_MAX\<close>, every rank exits with \<open>EXIT_FAILURE\<close> if the
  argument vector does not hold exactly one argument, or \<open>RANGE_MAX \<le> RANGE_MIN\<close>, or one
  of the three requests to \<open>safe_alloc\<close> is for less than one byte or is refused by
  \<open>malloc\<close>; otherwise every rank exits with \<open>EXIT_SUCCESS\<close>. The form of the argument
  is never checked: a text without leading digits is read as 0 and fails as a request for
  0 bytes, as does a size below the number of processes.
\<close>

theorem main_exit_status:
  assumes "0 < num_proc" "int num_proc \<le> INT_MAX"
    and "INT_MIN \<le> range_min" "range_max < INT_MAX" "range_max - range_min < INT_MAX"
    and "\<forall>i. 0 \<le> i \<longrightarrow> 0 \<le> rand i"
    and "length argv = 2 \<Longrightarrow> \<bar>atoll (argv ! 1)\<bar> \<le> INT_MAX"
    and "rank < num_proc"
  shows "status (main range_min range_max malloc rand time_init time_sort time_elapsed argv
                   num_proc ! rank) =
         (if length argv \<noteq> 2 \<or> range_max \<le> range_min \<or>
             (\<exists>n\<in>set (alloc_requests range_min range_max rand (atoll (argv ! 1)) num_proc).
                n < 1 \<or> \<not> malloc n)
          then Exit EXIT_FAILURE
          else Exit EXIT_SUCCESS)"
proof (cases "length argv \<noteq> 2 \<or> range_max \<le> range_min")
  case True
  with assms(8) show ?thesis by (auto simp: main_def)
next
  case False
  then have valid: "range_min < range_max" and size: "\<bar>atoll (argv ! 1)\<bar> \<le> INT_MAX"
    using assms(7) by simp_all
  note run = run_sort_result [OF assms(1,2) assms(3-5) valid assms(6) size, of malloc]
  show ?thesis
  proof (cases "\<exists>n\<in>set (alloc_requests range_min range_max rand (atoll (argv ! 1)) num_proc).
                  n < 1 \<or> \<not> malloc n")
    case True
    then have "run_sort range_min range_max malloc rand (atoll (argv ! 1)) num_proc =
               Inl Alloc_failure"
      by (simp only: run if_True)
    with True False assms(8) show ?thesis
      by (simp add: main_def)
  next
    case ok: False
    then have "run_sort range_min range_max malloc rand (atoll (argv ! 1)) num_proc =
               Inr (replicate num_proc
                      (sort (random_array rand range_min range_max (atoll (argv ! 1)))))"
      by (simp only: run if_False)
    with ok False assms(8) show ?thesis
      by (simp add: main_def)
  qed
qed

theorem main_exit_status_witness:
  "status (main RANGE_MIN RANGE_MAX (\<lambda>n. True) (\<lambda>i. 7 * i + 3) ''0.00012'' ''0.00034''
             ''0.00046'' [''bin/parallel.out'', ''10''] 2 ! 1) = Exit EXIT_SUCCESS \<and>
   status (main RANGE_MIN RANGE_MAX (\<lambda>n. True) (\<lambda>i. 7 * i + 3) ''0.00012'' ''0.00034''
             ''0.00046'' [''bin/parallel.out'', ''2''] 4 ! 1) = Exit EXIT_FAILURE"
proof -
  have ten: "atoll ''10'' = 10" and two: "atoll ''2'' = 2"
    by (simp_all add: atoll_def isspace_def isdigit_def LLONG_MAX_def LLONG_MIN_def)
  have "count_bytes (random_array (\<lambda>i. 7 * i + 3) RANGE_MIN RANGE_MAX 10) = 256"
    by code_simp
  then have a: "\<not> (\<exists>n\<in>set (alloc_requests RANGE_MIN RANGE_MAX (\<lambda>i. 7 * i + 3) 10 2). n < 1 \<or> \<not> True)"
    by (simp add: alloc_requests_def sizeof_int_def signed_divide_int_def)
  have b: "\<exists>n\<in>set (alloc_requests RANGE_MIN RANGE_MAX (\<lambda>i. 7 * i + 3) 2 4). n < 1 \<or> \<not> True"
    by (simp add: alloc_requests_def sizeof_int_def signed_divide_int_def)
  show ?thesis
    using main_exit_status [of 2 RANGE_MIN RANGE_MAX "\<lambda>i. 7 * i + 3" "[''bin/parallel.out'', ''10'']"
            1 "\<lambda>n. True" "''0.00012''" "''0.00034''" "''0.00046''"]
          main_exit_status [of 4 RANGE_MIN RANGE_MAX "\<lambda>i. 7 * i + 3" "[''bin/parallel.out'', ''2'']"
            1 "\<lambda>n. True" "''0.00012''" "''0.00034''" "''0.00046''"]
          a b
    by (simp add: ten two INT_MAX_def INT_MIN_def RANGE_MIN_def RANGE_MAX_def)
qed

text \<open>
  C8, as stated, fails: the argument \<open>12abc\<close> is not a positive integer, the interval is
  valid and every allocation succeeds, and yet both ranks exit with \<open>EXIT_SUCCESS\<close>,
  because \<open>atoll\<close> reads the argument as 12.
\<close>

theorem malformed_argument_accepted:
  "\<not> positive_integer ''12abc'' \<and>
   map status (main RANGE_MIN RANGE_MAX (\<lambda>n. True) (\<lambda>i. 7 * i + 3) ''0.00012'' ''0.00034''
                 ''0.00046'' [''bin/parallel.out'', ''12abc''] 2) =
     [Exit EXIT_SUCCESS, Exit EXIT_SUCCESS]"
  by code_simp

text \<open>
  C9. For every dataset, every number of processes \<open>w \<ge> 1\<close> and an allocator that grants
  the histogram, the serial \<open>counting_sort\<close> of serial.c returns an array, and the
  parallel \<open>counting_sort\<close> leaves exactly this array on every rank.
\<close>

theorem parallel_equals_serial:
  assumes "dataset arr" "0 < w" "int w \<le> INT_MAX" "malloc (count_bytes arr)"
  shows "\<exists>out. serial_counting_sort malloc arr (int (length arr)) = Inr out \<and>
               counting_sort malloc (replicate w arr) (int (length arr)) = Inr (replicate w out)"
  using counting_sort_sort [of arr w malloc, OF assms]
    serial_counting_sort_sort [of arr malloc, OF assms(1,4)] by simp

theorem parallel_equals_serial_witness:
  "\<exists>out. serial_counting_sort (\<lambda>n. True) [5, 3, 9, 1, 4, 1, 9, 2, 6, 3] 10 = Inr out \<and>
         counting_sort (\<lambda>n. True) (replicate 3 [5, 3, 9, 1, 4, 1, 9, 2, 6, 3]) 10 =
           Inr (replicate 3 out)"
  using parallel_equals_serial [of "[5, 3, 9, 1, 4, 1, 9, 2, 6, 3]" 3 "\<lambda>n. True"] dataset_example
  by (simp add: INT_MAX_def)

text \<open>
  C10. For a sub-array of at least one element that lies inside the block,
  \<open>array_min_max\<close> returns its least element as \<open>*min\<close> and its greatest element as
  \<open>*max\<close>, although the loop compares with \<open>*max\<close> only when the element did not lower
  \<open>*min\<close>.
\<close>

theorem array_min_max_correct:
  assumes "0 \<le> off" "1 \<le> sz" "off + sz \<le> int (length a)"
  shows "array_min_max a off sz = Inr (Min (set (slice a off sz)), Max (set (slice a off sz)))"
proof -
  have "a ! nat off \<in> set (slice a off sz)"
    using assms by (intro slice_hd) auto
  then have "insert (a ! nat off) (set (slice a off sz)) = set (slice a off sz)"
    by auto
  with array_min_max_slice [of off a sz] assms show ?thesis by simp
qed

theorem array_min_max_correct_witness:
  "array_min_max [7, 2, 9, 4] 1 3 = Inr (2, 9)"
  using array_min_max_correct [of 1 3 "[7, 2, 9, 4]"] by (simp add: slice_def)

end
